theory Spec2Isabelle
  imports Complex_Main "HOL-Library.Sublist"
begin

section \<open>Python values and exceptions\<close>

text \<open>
  The coordinator (coordinator.py) handles values that are strings by annotation only:
  a raw search hit is a \<^verbatim>\<open>dict\<close> whose entries may be missing or hold \<^verbatim>\<open>None\<close>, and
  \<^verbatim>\<open>_tok\<close> coerces a falsy argument to the empty string before calling \<^verbatim>\<open>.lower()\<close>.
  A value is therefore \<^verbatim>\<open>None\<close>, a string, or (as the representative of a value without a
  \<^verbatim>\<open>lower\<close> method) an integer. Characters are code points below 256; on these
  \<^verbatim>\<open>str.lower\<close> changes the letters A to Z (and Latin-1 letters, which stay outside a-z).
\<close>

datatype pyval = PNone | PStr string | PInt int

datatype exn = AttributeError | AdapterError string

fun truthy :: "pyval \<Rightarrow> bool" where
  "truthy PNone = False"
| "truthy (PStr s) = (s \<noteq> [])"
| "truthy (PInt i) = (i \<noteq> 0)"

definition py_or :: "pyval \<Rightarrow> pyval \<Rightarrow> pyval" where
  "py_or a b = (if truthy a then a else b)"

section \<open>Tokenization\<close>

definition STOP_WORDS :: "string list" where
  "STOP_WORDS =
     [''the'', ''a'', ''an'', ''and'', ''or'', ''of'', ''in'', ''on'', ''for'', ''to'',
      ''with'', ''by'', ''about'', ''is'', ''are'', ''was'', ''were'', ''be'']"

definition lower_char :: "char \<Rightarrow> char" where
  "lower_char c =
     (case map_of (zip ''ABCDEFGHIJKLMNOPQRSTUVWXYZ'' ''abcdefghijklmnopqrstuvwxyz'') c of
        None \<Rightarrow> c
      | Some d \<Rightarrow> d)"

definition lower :: "string \<Rightarrow> string" where
  "lower s = map lower_char s"

text \<open>The character class \<^verbatim>\<open>[a-z0-9]\<close> whose complement \<^verbatim>\<open>_TOKEN_RE\<close> matches.\<close>

definition is_token_char :: "char \<Rightarrow> bool" where
  "is_token_char c = (c \<in> set ''abcdefghijklmnopqrstuvwxyz0123456789'')"

text \<open>\<^verbatim>\<open>_TOKEN_RE.sub(" ", s)\<close>: every maximal run of characters outside the class becomes
  one space.\<close>

function TOKEN_RE_sub :: "string \<Rightarrow> string" where
  "TOKEN_RE_sub [] = []"
| "TOKEN_RE_sub (c # cs) =
     (if is_token_char c then c # TOKEN_RE_sub cs
      else CHR '' '' # TOKEN_RE_sub (dropWhile (\<lambda>d. \<not> is_token_char d) cs))"
  by pat_completeness auto
termination
  by (relation "measure length") (auto simp: less_Suc_eq_le length_dropWhile_le)

text \<open>Python's \<^verbatim>\<open>str.isspace\<close> on code points below 256.\<close>

definition py_isspace :: "char \<Rightarrow> bool" where
  "py_isspace c =
     (c \<in> set [CHR 0x09, CHR 0x0A, CHR 0x0B, CHR 0x0C, CHR 0x0D, CHR 0x1C, CHR 0x1D,
               CHR 0x1E, CHR 0x1F, CHR 0x20, CHR 0x85, CHR 0xA0])"

text \<open>\<^verbatim>\<open>s.split()\<close>: the maximal runs of non-whitespace characters, in order. The first
  argument is the word read so far.\<close>

fun split_from :: "string \<Rightarrow> string \<Rightarrow> string list" where
  "split_from cur [] = (if cur = [] then [] else [cur])"
| "split_from cur (c # cs) =
     (if py_isspace c then (if cur = [] then split_from [] cs else cur # split_from [] cs)
      else split_from (cur @ [c]) cs)"

definition py_split :: "string \<Rightarrow> string list" where
  "py_split s = split_from [] s"

definition tokens :: "string \<Rightarrow> string list" where
  "tokens s = filter (\<lambda>t. t \<noteq> [] \<and> t \<notin> set STOP_WORDS) (py_split (TOKEN_RE_sub (lower s)))"

text \<open>\<^verbatim>\<open>_tok\<close>: \<^verbatim>\<open>(s or "").lower()\<close> raises \<^verbatim>\<open>AttributeError\<close> on a truthy value that is
  not a string.\<close>

definition tok :: "pyval \<Rightarrow> exn + string list" where
  "tok s =
     (case py_or s (PStr []) of
        PStr x \<Rightarrow> Inr (tokens x)
      | _ \<Rightarrow> Inl AttributeError)"

section \<open>Python floats\<close>

text \<open>
  A Python \<^verbatim>\<open>float\<close> is an IEEE 754 binary64 number. A finite double is represented by the
  rational number it denotes. An arithmetic operation computes the exact result and rounds
  it to the nearest double, ties going to the even significand; \<open>rd\<close> is this rounding: a
  double is \<open>m * 2 ^ e\<close> with an integer \<open>m\<close> below \<open>2 ^ 53\<close> and \<open>e\<close> at least \<open>- 1074\<close>. The
  scorer only produces values between 0 and 2, so overflow to infinity (beyond about
  \<open>1.8e308\<close>) and NaN do not occur and are not represented.
\<close>

type_synonym double = rat

text \<open>\<^verbatim>\<open>int.bit_length\<close>: the number of binary digits of a positive integer.\<close>

function bit_length :: "int \<Rightarrow> int" where
  "bit_length n = (if n \<le> 0 then 0 else 1 + bit_length (n div 2))"
  by pat_completeness auto
termination
  by (relation "measure nat") auto

declare bit_length.simps [simp del]

definition pow2 :: "int \<Rightarrow> rat" where
  "pow2 e = (if 0 \<le> e then 2 ^ nat e else 1 / 2 ^ nat (- e))"

text \<open>For a positive \<open>x\<close>, the integer \<open>k\<close> with \<open>2 ^ k \<le> x < 2 ^ (k + 1)\<close>. From 1 on it is
  read off the integer part of \<open>x\<close>; below 1, \<open>- k\<close> is the least exponent whose power of two
  reaches \<open>1 / x\<close>.\<close>

definition ilog2 :: "rat \<Rightarrow> int" where
  "ilog2 x = (if 1 \<le> x then bit_length \<lfloor>x\<rfloor> - 1 else - bit_length (\<lceil>1 / x\<rceil> - 1))"

text \<open>Rounding to the nearest integer, a tie to the even one.\<close>

definition round_half_even :: "rat \<Rightarrow> int" where
  "round_half_even x =
     (let f = \<lfloor>x\<rfloor>; r = x - of_int f
      in if r < 1 / 2 then f else if 1 / 2 < r then f + 1 else if even f then f else f + 1)"

definition rd :: "rat \<Rightarrow> double" where
  "rd x =
     (if x = 0 then 0
      else (let a = \<bar>x\<bar>;
                e = max (ilog2 a - 52) (- 1074);
                m = round_half_even (a / pow2 e)
            in sgn x * of_int m * pow2 e))"

text \<open>\<^verbatim>\<open>a * b\<close> and \<^verbatim>\<open>a + b\<close> on floats, and \<^verbatim>\<open>m / n\<close> on integers (true division, which is
  correctly rounded).\<close>

definition float_mul :: "double \<Rightarrow> double \<Rightarrow> double" where
  "float_mul a b = rd (a * b)"

definition float_add :: "double \<Rightarrow> double \<Rightarrow> double" where
  "float_add a b = rd (a + b)"

definition int_truediv :: "nat \<Rightarrow> nat \<Rightarrow> double" where
  "int_truediv m n = rd (of_nat m / of_nat n)"

section \<open>The lexical scorer\<close>

text \<open>\<^verbatim>\<open>sep.join(ts)\<close>\<close>

fun py_join :: "string \<Rightarrow> string list \<Rightarrow> string" where
  "py_join sep [] = []"
| "py_join sep [t] = t"
| "py_join sep (t # t' # ts) = t @ sep @ py_join sep (t' # ts)"

text \<open>\<^verbatim>\<open>a in b\<close> on strings: \<open>a\<close> starts at some position of \<open>b\<close>.\<close>

fun py_in :: "string \<Rightarrow> string \<Rightarrow> bool" where
  "py_in a [] = (a = [])"
| "py_in a (c # cs) = (prefix a (c # cs) \<or> py_in a cs)"

text \<open>
  \<^verbatim>\<open>_match_score\<close>. The float literals \<^verbatim>\<open>0.6\<close>, \<^verbatim>\<open>0.25\<close>, \<^verbatim>\<open>0.15\<close> and \<^verbatim>\<open>0.1\<close> are the doubles
  nearest to these decimals; products and sums are rounded one by one, the sum from left to
  right. The calls of \<^verbatim>\<open>_tok\<close> happen in the source's order (query, then, only for a
  non-empty query token set, title, snippet, url); the phrase bonus tokenizes query and
  title a second time, with the same result.
\<close>

definition match_score :: "pyval \<Rightarrow> pyval \<Rightarrow> pyval \<Rightarrow> pyval \<Rightarrow> exn + double" where
  "match_score query title url snippet =
     (case tok query of
        Inl e \<Rightarrow> Inl e
      | Inr qt \<Rightarrow>
          if set qt = {} then Inr 0
          else
            (case tok title of
               Inl e \<Rightarrow> Inl e
             | Inr tt \<Rightarrow>
                 (case tok snippet of
                    Inl e \<Rightarrow> Inl e
                  | Inr st \<Rightarrow>
                      (case tok url of
                         Inl e \<Rightarrow> Inl e
                       | Inr ut \<Rightarrow>
                           (let q = set qt; t = set tt; s = set st; u = set ut;
                                ov_title = int_truediv (card (q \<inter> t)) (max 1 (card q));
                                ov_snip = int_truediv (card (q \<inter> s)) (max 1 (card q));
                                ov_url = int_truediv (card (q \<inter> u)) (max 1 (card q));
                                phrase_bonus =
                                  (if py_in (py_join '' '' qt) (py_join '' '' tt)
                                   then rd (1 / 10) else 0)
                            in Inr (float_add
                                      (float_add
                                         (float_add (float_mul (rd (6 / 10)) ov_title)
                                            (float_mul (rd (25 / 100)) ov_snip))
                                         (float_mul (rd (15 / 100)) ov_url))
                                      phrase_bonus))))))"

section \<open>Ranking and filtering of raw hits\<close>

text \<open>A raw hit is a dictionary; \<^verbatim>\<open>r.get(k, d)\<close> returns the stored value, which may be
  \<^verbatim>\<open>None\<close>, and the default only when the key is missing.\<close>

type_synonym hit = "string \<rightharpoonup> pyval"

definition dict_get :: "hit \<Rightarrow> string \<Rightarrow> pyval \<Rightarrow> pyval" where
  "dict_get r k d = (case r k of None \<Rightarrow> d | Some v \<Rightarrow> v)"

text \<open>The tuple \<^verbatim>\<open>(score, title, url)\<close>.\<close>

type_synonym candidate = "double \<times> pyval \<times> pyval"

text \<open>What the scoring loop of \<^verbatim>\<open>_research_queries\<close> reads from a hit: title, url and
  snippet (\<^verbatim>\<open>r.get("body", "") or r.get("snippet", "") or ""\<close>).\<close>

definition hit_fields :: "hit \<Rightarrow> pyval \<times> pyval \<times> pyval" where
  "hit_fields r =
     (dict_get r ''title'' (PStr []),
      dict_get r ''href'' (PStr []),
      py_or (py_or (dict_get r ''body'' (PStr [])) (dict_get r ''snippet'' (PStr []))) (PStr []))"

text \<open>The scoring loop: an exception of \<^verbatim>\<open>_match_score\<close> leaves the loop.\<close>

fun score_hits :: "string \<Rightarrow> hit list \<Rightarrow> exn + candidate list" where
  "score_hits q [] = Inr []"
| "score_hits q (r # raw) =
     (case hit_fields r of
        (title, url, snip) \<Rightarrow>
          (case match_score (PStr q) title url snip of
             Inl e \<Rightarrow> Inl e
           | Inr score \<Rightarrow>
               (case score_hits q raw of
                  Inl e \<Rightarrow> Inl e
                | Inr ranked \<Rightarrow> Inr ((score, title, url) # ranked))))"

text \<open>\<^verbatim>\<open>MIN_SCORE = 0.26\<close>, the double nearest to 0.26.\<close>

definition MIN_SCORE :: double where
  "MIN_SCORE = rd (26 / 100)"

text \<open>\<^verbatim>\<open>ranked.sort(reverse=True, key=lambda x: x[0])\<close>: Python reverses the list, sorts it
  stably in ascending key order and reverses it again.\<close>

definition sort_reverse :: "candidate list \<Rightarrow> candidate list" where
  "sort_reverse ranked = rev (sort_key fst (rev ranked))"

text \<open>The slice \<^verbatim>\<open>xs[:n]\<close>; a negative \<open>n\<close> counts from the end.\<close>

definition slice_to :: "int \<Rightarrow> 'a list \<Rightarrow> 'a list" where
  "slice_to n xs = (if 0 \<le> n then take (nat n) xs else take (length xs - nat (- n)) xs)"

definition select_picks :: "int \<Rightarrow> candidate list \<Rightarrow> candidate list" where
  "select_picks ppq ranked =
     (let sorted = sort_reverse ranked;
          picks = slice_to ppq (filter (\<lambda>x. MIN_SCORE \<le> fst x) sorted)
      in if picks = [] \<and> sorted \<noteq> [] then slice_to 1 sorted else picks)"

section \<open>The coordinator\<close>

text \<open>Modelled from the spec: the class \<^verbatim>\<open>SearchResult\<close> of module \<^verbatim>\<open>models\<close>, which is
  not among the sources, has the fields title, url and summary; its constructor is taken
  to store the arguments it is given.\<close>

record search_result =
  title :: pyval
  url :: pyval
  summary :: string

record query_response =
  qr_queries :: "string list"
  thoughts :: string

record decision =
  should_follow_up :: bool
  reasoning :: string
  queries :: "string list"

text \<open>
  Every call that leaves the coordinator is recorded, in order, in a trace: the agent
  runs, the search, and the section header that opens a research round. A summarization
  is recorded with the picked title and url and its outcome.
\<close>

datatype event =
    EvQueryGen string
  | EvRound int
  | EvSearch string
  | EvSummarize pyval pyval "exn + string"
  | EvFollowUp string
  | EvSynthesize string

text \<open>The external world: what an agent run or a search returns may depend on the input
  and on everything that happened before. \<open>Inl\<close> is a raised \<^verbatim>\<open>Exception\<close>.\<close>

record world =
  query_agent :: "event list \<Rightarrow> string \<Rightarrow> exn + query_response"
  ddg_text :: "event list \<Rightarrow> string \<Rightarrow> exn + hit list"
  search_agent :: "event list \<Rightarrow> string \<Rightarrow> exn + string"
  follow_up_decision_agent :: "event list \<Rightarrow> string \<Rightarrow> exn + decision"
  synthesis_agent :: "event list \<Rightarrow> string \<Rightarrow> exn + string"

text \<open>The fields of \<^verbatim>\<open>ResearchCoordinator\<close> that the workflow reads or writes. The search
  options are passed through to the provider unchanged and the logging callbacks do not
  influence the workflow; both are left out.\<close>

record coordinator =
  query :: string
  max_rounds :: int
  picks_per_query :: int
  search_results :: "search_result list"
  generated_queries :: "string list"
  trace :: "event list"

definition init :: "string \<Rightarrow> int \<Rightarrow> int \<Rightarrow> coordinator" where
  "init q mr ppq =
     \<lparr>query = q, max_rounds = mr, picks_per_query = ppq, search_results = [],
      generated_queries = [], trace = []\<rparr>"

definition log_event :: "event \<Rightarrow> coordinator \<Rightarrow> coordinator" where
  "log_event ev s = s\<lparr>trace := trace s @ [ev]\<rparr>"

text \<open>\<^verbatim>\<open>_ddg_search\<close>: any exception of the provider becomes the empty list.\<close>

definition ddg_search :: "world \<Rightarrow> string \<Rightarrow> coordinator \<Rightarrow> hit list \<times> coordinator" where
  "ddg_search w q s =
     (case ddg_text w (trace s) q of
        Inl e \<Rightarrow> ([], log_event (EvSearch q) s)
      | Inr hits \<Rightarrow> (hits, log_event (EvSearch q) s))"

subsection \<open>Rendering values in f-strings\<close>

definition digit_char :: "nat \<Rightarrow> char" where
  "digit_char d = ''0123456789'' ! d"

fun str_nat :: "nat \<Rightarrow> string" where
  "str_nat n = (if n < 10 then [digit_char n] else str_nat (n div 10) @ [digit_char (n mod 10)])"

declare str_nat.simps [simp del]

definition str_int :: "int \<Rightarrow> string" where
  "str_int i = (if i < 0 then CHR ''-'' # str_nat (nat (- i)) else str_nat (nat i))"

fun py_str :: "pyval \<Rightarrow> string" where
  "py_str PNone = ''None''"
| "py_str (PStr s) = s"
| "py_str (PInt i) = str_int i"

definition NL :: string where
  "NL = [CHR 0x0A]"

subsection \<open>One research round\<close>

text \<open>The input of the search agent for one pick, and \<^verbatim>\<open>self.search_results.append\<close>.\<close>

definition summary_input :: "pyval \<Rightarrow> pyval \<Rightarrow> string" where
  "summary_input t u = ''Title: '' @ py_str t @ NL @ ''URL: '' @ py_str u"

definition append_result :: "search_result \<Rightarrow> coordinator \<Rightarrow> coordinator" where
  "append_result r s = s\<lparr>search_results := search_results s @ [r]\<rparr>"

text \<open>The summarization loop over the picks.\<close>

fun summarize_picks ::
  "world \<Rightarrow> candidate list \<Rightarrow> coordinator \<Rightarrow> (exn + unit) \<times> coordinator" where
  "summarize_picks w [] s = (Inr (), s)"
| "summarize_picks w ((score, t, u) # picks) s =
     (case search_agent w (trace s) (summary_input t u) of
        Inl e \<Rightarrow> (Inl e, log_event (EvSummarize t u (Inl e)) s)
      | Inr final_output \<Rightarrow>
          summarize_picks w picks
            (append_result \<lparr>title = t, url = u, summary = final_output\<rparr>
               (log_event (EvSummarize t u (Inr final_output)) s)))"

text \<open>The body of the loop over the queries: search, score, pick, summarize.\<close>

definition research_query ::
  "world \<Rightarrow> string \<Rightarrow> coordinator \<Rightarrow> (exn + unit) \<times> coordinator" where
  "research_query w q s =
     (case ddg_search w q s of
        (raw, s1) \<Rightarrow>
          (case score_hits q raw of
             Inl e \<Rightarrow> (Inl e, s1)
           | Inr ranked \<Rightarrow> summarize_picks w (select_picks (picks_per_query s1) ranked) s1))"

fun research_queries ::
  "world \<Rightarrow> string list \<Rightarrow> coordinator \<Rightarrow> (exn + unit) \<times> coordinator" where
  "research_queries w [] s = (Inr (), s)"
| "research_queries w (q # qs) s =
     (case research_query w q s of
        (Inl e, s1) \<Rightarrow> (Inl e, s1)
      | (Inr _, s1) \<Rightarrow> research_queries w qs s1)"

subsection \<open>Digests\<close>

text \<open>The numbered entry of one result; \<^verbatim>\<open>_findings_text\<close> and \<^verbatim>\<open>_synthesize\<close> build it with
  the same f-string.\<close>

definition result_entry :: "nat \<Rightarrow> search_result \<Rightarrow> string" where
  "result_entry i r =
     NL @ str_nat i @ ''. Title: '' @ py_str (title r) @ NL @ ''   URL: '' @ py_str (url r)
       @ NL @ ''   Summary: '' @ summary r @ NL"

text \<open>The entries of all accumulated results, numbered as \<^verbatim>\<open>enumerate(self.search_results, 1)\<close>
  numbers them.\<close>

definition numbered_entries :: "search_result list \<Rightarrow> string list" where
  "numbered_entries rs = map (\<lambda>(i, r). result_entry i r) (List.enumerate 1 rs)"

definition findings_text :: "coordinator \<Rightarrow> string" where
  "findings_text s =
     py_join NL
       ([''Original Query: '' @ query s, [], ''Current Findings:'']
        @ numbered_entries (search_results s))"

definition SYNTHESIS_INSTRUCTION :: string where
  "SYNTHESIS_INSTRUCTION =
     ''Instruction: In your report, use in-text citations with square brackets ''
     @ ''corresponding to the numbered sources below, e.g., [1], [2]. '' @ NL @ NL
     @ ''IMPORTANT: Do NOT use LaTeX math delimiters `$...` or `$$...$$`. ''
     @ ''If you need currency, write `USD 1,000` (not `$1,000`).'' @ NL @ NL"

definition synthesis_input :: "coordinator \<Rightarrow> string" where
  "synthesis_input s =
     SYNTHESIS_INSTRUCTION @ ''Query: '' @ query s @ NL @ NL @ ''Search Results:'' @ NL
       @ concat (numbered_entries (search_results s))"

subsection \<open>Follow-up decision and synthesis\<close>

definition follow_up_decision :: "world \<Rightarrow> coordinator \<Rightarrow> (exn + decision) \<times> coordinator" where
  "follow_up_decision w s =
     (let findings = findings_text s
      in (follow_up_decision_agent w (trace s) findings, log_event (EvFollowUp findings) s))"

definition synthesize :: "world \<Rightarrow> coordinator \<Rightarrow> (exn + string) \<times> coordinator" where
  "synthesize w s =
     (let findings_text = synthesis_input s
      in (synthesis_agent w (trace s) findings_text, log_event (EvSynthesize findings_text) s))"

subsection \<open>What a round leaves unchanged\<close>

text \<open>Only \<open>search_results\<close> and the trace change after the queries were generated.\<close>

definition same_settings :: "coordinator \<Rightarrow> coordinator \<Rightarrow> bool" where
  "same_settings s s' =
     (query s' = query s \<and> max_rounds s' = max_rounds s
      \<and> picks_per_query s' = picks_per_query s \<and> generated_queries s' = generated_queries s)"

lemma same_settings_refl [simp]: "same_settings s s"
  by (simp add: same_settings_def)

lemma same_settings_trans: "same_settings s s1 \<Longrightarrow> same_settings s1 s2 \<Longrightarrow> same_settings s s2"
  by (simp add: same_settings_def)

lemma same_settings_log_event [simp]: "same_settings s (log_event ev s)"
  by (simp add: same_settings_def log_event_def)

lemma same_settings_append_result [simp]: "same_settings s (append_result r s)"
  by (simp add: same_settings_def append_result_def)

lemma summarize_picks_settings: "same_settings s (snd (summarize_picks w picks s))"
proof (induction picks arbitrary: s)
  case Nil
  show ?case by simp
next
  case (Cons p picks)
  obtain sc t u where p: "p = (sc, t, u)" by (cases p)
  show ?case
  proof (cases "search_agent w (trace s) (summary_input t u)")
    case (Inl e)
    then show ?thesis by (simp add: p)
  next
    case (Inr out)
    let ?s2 = "append_result \<lparr>title = t, url = u, summary = out\<rparr>
                 (log_event (EvSummarize t u (Inr out)) s)"
    have "same_settings s ?s2" by (simp add: same_settings_def log_event_def append_result_def)
    moreover have "same_settings ?s2 (snd (summarize_picks w picks ?s2))" by (rule Cons.IH)
    ultimately show ?thesis using Inr by (simp add: p same_settings_trans)
  qed
qed

lemma research_query_settings: "same_settings s (snd (research_query w q s))"
proof -
  have a: "same_settings s (log_event (EvSearch q) s)" by simp
  show ?thesis
    unfolding research_query_def ddg_search_def
    using a summarize_picks_settings [THEN same_settings_trans [OF a]]
    by (auto split: sum.splits)
qed

lemma research_queries_settings: "same_settings s (snd (research_queries w qs s))"
proof (induction qs arbitrary: s)
  case Nil
  show ?case by simp
next
  case (Cons q qs)
  obtain r s1 where rq: "research_query w q s = (r, s1)" by (cases "research_query w q s")
  have a: "same_settings s s1" using research_query_settings [of s w q] rq by simp
  show ?case
  proof (cases r)
    case (Inl e)
    then show ?thesis using rq a by simp
  next
    case (Inr x)
    then show ?thesis using rq same_settings_trans [OF a Cons.IH [of s1]] by simp
  qed
qed

lemma follow_up_decision_settings: "same_settings s (snd (follow_up_decision w s))"
  by (simp add: follow_up_decision_def Let_def)

lemma follow_up_round_settings:
  assumes "(r1, s1) = follow_up_decision w s"
    and "(r2, s2) = research_queries w qs (log_event ev s1)"
  shows "same_settings s s2"
proof -
  have "same_settings s s1"
    using follow_up_decision_settings [of s w] assms(1) by (metis snd_conv)
  moreover have "same_settings s1 (log_event ev s1)" by simp
  moreover have "same_settings (log_event ev s1) s2"
    using research_queries_settings [of "log_event ev s1" w qs] assms(2) by (metis snd_conv)
  ultimately show ?thesis by (blast intro: same_settings_trans)
qed

lemma follow_up_round_max_rounds:
  "(r1, s1) = follow_up_decision w s \<Longrightarrow>
   (r2, s2) = research_queries w qs (log_event ev s1) \<Longrightarrow> max_rounds s2 = max_rounds s"
  using follow_up_round_settings [of r1 s1 w s r2 s2 qs ev] by (simp add: same_settings_def)

subsection \<open>The workflow\<close>

text \<open>The loop \<^verbatim>\<open>while round_no < self.max_rounds\<close> of \<^verbatim>\<open>research\<close>.\<close>

function follow_up_loop ::
  "world \<Rightarrow> int \<Rightarrow> coordinator \<Rightarrow> (exn + unit) \<times> coordinator" where
  "follow_up_loop w round_no s =
     (if round_no < max_rounds s then
        (case follow_up_decision w s of
           (Inl e, s1) \<Rightarrow> (Inl e, s1)
         | (Inr decision, s1) \<Rightarrow>
             if \<not> should_follow_up decision then (Inr (), s1)
             else
               (case research_queries w (queries decision)
                       (log_event (EvRound (round_no + 1)) s1) of
                  (Inl e, s2) \<Rightarrow> (Inl e, s2)
                | (Inr _, s2) \<Rightarrow> follow_up_loop w (round_no + 1) s2))
      else (Inr (), s))"
  by pat_completeness auto
termination
  apply (relation "measure (\<lambda>(w, round_no, s). nat (max_rounds s - round_no))")
   apply simp
  apply simp
  apply (frule (1) follow_up_round_max_rounds)
  apply simp
  done

declare follow_up_loop.simps [simp del]

text \<open>\<^verbatim>\<open>research\<close>: generate the queries, run round 1, loop over the follow-up rounds,
  synthesize. An exception of an agent ends the call; the coordinator keeps the state
  reached.\<close>

definition research :: "world \<Rightarrow> coordinator \<Rightarrow> (exn + string) \<times> coordinator" where
  "research w s =
     (case query_agent w (trace s) (query s) of
        Inl e \<Rightarrow> (Inl e, log_event (EvQueryGen (query s)) s)
      | Inr query_resp \<Rightarrow>
          (let s1 = (log_event (EvQueryGen (query s)) s)
                      \<lparr>generated_queries := qr_queries query_resp\<rparr>;
               round_no = 1
           in case research_queries w (generated_queries s1) (log_event (EvRound round_no) s1) of
                (Inl e, s2) \<Rightarrow> (Inl e, s2)
              | (Inr _, s2) \<Rightarrow>
                  (case follow_up_loop w round_no s2 of
                     (Inl e, s3) \<Rightarrow> (Inl e, s3)
                   | (Inr _, s3) \<Rightarrow> synthesize w s3)))"

section \<open>Reading the trace\<close>

text \<open>The events recorded between two states of one coordinator.\<close>

definition events_since :: "coordinator \<Rightarrow> coordinator \<Rightarrow> event list" where
  "events_since s s' = drop (length (trace s)) (trace s')"

fun is_round :: "event \<Rightarrow> bool" where
  "is_round (EvRound n) = True"
| "is_round _ = False"

fun is_follow_up :: "event \<Rightarrow> bool" where
  "is_follow_up (EvFollowUp findings) = True"
| "is_follow_up _ = False"

fun is_synthesis :: "event \<Rightarrow> bool" where
  "is_synthesis (EvSynthesize findings) = True"
| "is_synthesis _ = False"

text \<open>The events of one query of a round: its search and the summarizations of its picks.\<close>

fun is_query_event :: "event \<Rightarrow> bool" where
  "is_query_event (EvSearch q) = True"
| "is_query_event (EvSummarize t u out) = True"
| "is_query_event _ = False"

definition count_rounds :: "event list \<Rightarrow> nat" where
  "count_rounds evs = length (filter is_round evs)"

definition count_follow_ups :: "event list \<Rightarrow> nat" where
  "count_follow_ups evs = length (filter is_follow_up evs)"

text \<open>What happens after round \<open>n\<close> was opened.\<close>

definition after_round :: "int \<Rightarrow> event list \<Rightarrow> event list" where
  "after_round n evs = drop 1 (dropWhile (\<lambda>ev. ev \<noteq> EvRound n) evs)"

text \<open>The results that the successful summarizations of a trace produce, in the order of
  the trace.\<close>

fun results_of :: "event list \<Rightarrow> search_result list" where
  "results_of [] = []"
| "results_of (EvSummarize t u (Inr out) # evs) =
     \<lparr>title = t, url = u, summary = out\<rparr> # results_of evs"
| "results_of (ev # evs) = results_of evs"

text \<open>Every digest sent to the follow-up agent or to the synthesis agent is the digest of
  the results produced before it; \<open>acc\<close> are the results at the start of the events.\<close>

fun digests_ok :: "coordinator \<Rightarrow> search_result list \<Rightarrow> event list \<Rightarrow> bool" where
  "digests_ok s acc [] = True"
| "digests_ok s acc (EvFollowUp findings # evs) =
     (findings = findings_text (s\<lparr>search_results := acc\<rparr>) \<and> digests_ok s acc evs)"
| "digests_ok s acc (EvSynthesize findings # evs) =
     (findings = synthesis_input (s\<lparr>search_results := acc\<rparr>) \<and> digests_ok s acc evs)"
| "digests_ok s acc (EvSummarize t u (Inr out) # evs) =
     digests_ok s (acc @ [\<lparr>title = t, url = u, summary = out\<rparr>]) evs"
| "digests_ok s acc (ev # evs) = digests_ok s acc evs"

text \<open>State \<open>s'\<close> is reached from \<open>s\<close> by recording the events \<open>evs\<close>: the results grow by
  the results of these events, the digests among them are right, and topic and limits
  stay as they are.\<close>

definition reaches :: "coordinator \<Rightarrow> event list \<Rightarrow> coordinator \<Rightarrow> bool" where
  "reaches s evs s' =
     (trace s' = trace s @ evs
      \<and> search_results s' = search_results s @ results_of evs
      \<and> digests_ok s (search_results s) evs
      \<and> query s' = query s \<and> max_rounds s' = max_rounds s
      \<and> picks_per_query s' = picks_per_query s)"

section \<open>The scorer as the specification words it\<close>

text \<open>
  The reference definition of the specification, written from its words: lower-case,
  replace every run of non-alphanumeric characters by a space, split on whitespace, discard
  the stop words; \<open>overlap X = |Q \<inter> X| / max 1 |Q|\<close>; the phrase bonus is 0.1 iff the
  space-joined query tokens are a contiguous part of the space-joined title tokens. The
  formula \<open>0.6 * overlap T + 0.25 * overlap S + 0.15 * overlap U + phrase_bonus\<close> is evaluated in
  Python's float arithmetic, as written.
\<close>

definition spec_alnum :: "char \<Rightarrow> bool" where
  "spec_alnum c =
     (c \<in> set ''abcdefghijklmnopqrstuvwxyz'' \<or> c \<in> set ''ABCDEFGHIJKLMNOPQRSTUVWXYZ''
      \<or> c \<in> set ''0123456789'')"

function spec_replace_runs :: "string \<Rightarrow> string" where
  "spec_replace_runs s =
     (if s = [] then []
      else if spec_alnum (hd s) then takeWhile spec_alnum s @ spec_replace_runs (dropWhile spec_alnum s)
      else CHR '' '' # spec_replace_runs (dropWhile (\<lambda>c. \<not> spec_alnum c) s))"
  by pat_completeness auto
termination
proof (relation "measure length")
  show "wf (measure length)" by simp
next
  fix s :: string
  assume "s \<noteq> []" and "spec_alnum (hd s)"
  then have "length (dropWhile spec_alnum s) < length s"
    by (cases s) (auto simp: less_Suc_eq_le length_dropWhile_le)
  then show "(dropWhile spec_alnum s, s) \<in> measure length" by simp
next
  fix s :: string
  assume "s \<noteq> []" and "\<not> spec_alnum (hd s)"
  then have "length (dropWhile (\<lambda>c. \<not> spec_alnum c) s) < length s"
    by (cases s) (auto simp: less_Suc_eq_le length_dropWhile_le)
  then show "(dropWhile (\<lambda>c. \<not> spec_alnum c) s, s) \<in> measure length" by simp
qed

declare spec_replace_runs.simps [simp del]

definition spec_tokenize :: "string \<Rightarrow> string list" where
  "spec_tokenize s =
     filter (\<lambda>t. t \<notin> set STOP_WORDS) (py_split (spec_replace_runs (lower s)))"

definition overlap :: "string set \<Rightarrow> string set \<Rightarrow> double" where
  "overlap Q X = int_truediv (card (Q \<inter> X)) (max 1 (card Q))"

definition spec_phrase_bonus :: "string \<Rightarrow> string \<Rightarrow> double" where
  "spec_phrase_bonus q t =
     (if sublist (py_join '' '' (spec_tokenize q)) (py_join '' '' (spec_tokenize t))
      then rd (1 / 10) else 0)"

definition spec_score :: "string \<Rightarrow> string \<Rightarrow> string \<Rightarrow> string \<Rightarrow> double" where
  "spec_score q t u s =
     float_add
       (float_add
          (float_add
             (float_mul (rd (6 / 10)) (overlap (set (spec_tokenize q)) (set (spec_tokenize t))))
             (float_mul (rd (25 / 100)) (overlap (set (spec_tokenize q)) (set (spec_tokenize s)))))
          (float_mul (rd (15 / 100)) (overlap (set (spec_tokenize q)) (set (spec_tokenize u)))))
       (spec_phrase_bonus q t)"

text \<open>A value that is a string or \<^verbatim>\<open>None\<close>, a dictionary entry that is missing or such a
  value, and the string such a value is read as.\<close>

definition str_or_none :: "pyval \<Rightarrow> bool" where
  "str_or_none v = (case v of PInt i \<Rightarrow> False | _ \<Rightarrow> True)"

definition field_ok :: "hit \<Rightarrow> string \<Rightarrow> bool" where
  "field_ok r k = (case r k of None \<Rightarrow> True | Some v \<Rightarrow> str_or_none v)"

definition field_empty :: "hit \<Rightarrow> string \<Rightarrow> bool" where
  "field_empty r k = (r k = None \<or> r k = Some PNone)"

definition str_or_empty :: "pyval \<Rightarrow> string" where
  "str_or_empty v = (case v of PStr x \<Rightarrow> x | _ \<Rightarrow> [])"

section \<open>An example world\<close>

text \<open>A world for concrete runs: two generated queries, the first of which makes the
  search provider fail; one hit for every other query; a follow-up agent that asks for
  more research iff \<open>go_on\<close> holds.\<close>

definition example_world :: "bool \<Rightarrow> world" where
  "example_world go_on =
     \<lparr>query_agent = (\<lambda>h topic. Inr \<lparr>qr_queries = [''boom'', ''canada''], thoughts = []\<rparr>),
      ddg_text = (\<lambda>h q. if q = ''boom'' then Inl (AdapterError ''timeout'')
                        else Inr [[''title'' \<mapsto> PStr ''Canada'']]),
      search_agent = (\<lambda>h inp. Inr ''summary''),
      follow_up_decision_agent =
        (\<lambda>h findings. Inr \<lparr>should_follow_up = go_on, reasoning = [], queries = [''canada'']\<rparr>),
      synthesis_agent = (\<lambda>h text. Inr ''report'')\<rparr>"


section \<open>Properties of the workflow: what a call records\<close>

lemma results_of_append: "results_of (a @ b) = results_of a @ results_of b"
  by (induction a rule: results_of.induct) simp_all

lemma digests_ok_append:
  "digests_ok s acc (a @ b) = (digests_ok s acc a \<and> digests_ok s (acc @ results_of a) b)"
  by (induction s acc a rule: digests_ok.induct) simp_all

lemma findings_text_upd:
  "findings_text (s\<lparr>search_results := acc\<rparr>) =
     py_join NL ([''Original Query: '' @ query s, [], ''Current Findings:''] @ numbered_entries acc)"
  by (simp add: findings_text_def)

lemma synthesis_input_upd:
  "synthesis_input (s\<lparr>search_results := acc\<rparr>) =
     SYNTHESIS_INSTRUCTION @ ''Query: '' @ query s @ NL @ NL @ ''Search Results:'' @ NL
       @ concat (numbered_entries acc)"
  by (simp add: synthesis_input_def)

lemma digests_ok_query: "query s1 = query s \<Longrightarrow> digests_ok s1 acc evs = digests_ok s acc evs"
  by (induction s acc evs rule: digests_ok.induct)
     (simp_all add: findings_text_upd synthesis_input_upd)

lemma reaches_refl: "reaches s [] s"
  by (simp add: reaches_def)

lemma reaches_trans:
  assumes "reaches s a s1" and "reaches s1 b s2"
  shows "reaches s (a @ b) s2"
proof -
  have q: "query s1 = query s" using assms(1) by (simp add: reaches_def)
  have d1: "digests_ok s (search_results s) a" using assms(1) by (simp add: reaches_def)
  have r1: "search_results s1 = search_results s @ results_of a"
    using assms(1) by (simp add: reaches_def)
  have "digests_ok s1 (search_results s1) b" using assms(2) by (simp add: reaches_def)
  then have d2: "digests_ok s (search_results s @ results_of a) b"
    using digests_ok_query [OF q, of "search_results s1" b] r1 by simp
  have d: "digests_ok s (search_results s) (a @ b)"
    using d1 d2 by (simp add: digests_ok_append)
  have t: "trace s2 = trace s @ a @ b" using assms by (simp add: reaches_def)
  have r: "search_results s2 = search_results s @ results_of (a @ b)"
    using assms by (simp add: reaches_def results_of_append)
  have f: "query s2 = query s \<and> max_rounds s2 = max_rounds s
           \<and> picks_per_query s2 = picks_per_query s"
    using assms by (simp add: reaches_def)
  show ?thesis unfolding reaches_def using d t r f by simp
qed

lemma reaches_events_since: "reaches s evs s' \<Longrightarrow> events_since s s' = evs"
  by (simp add: reaches_def events_since_def)



lemma reaches_plain:
  "reaches s [EvSearch q] (log_event (EvSearch q) s)"
  "reaches s [EvRound n] (log_event (EvRound n) s)"
  "reaches s [EvQueryGen topic] (log_event (EvQueryGen topic) s)"
  "reaches s [EvSummarize t u (Inl e)] (log_event (EvSummarize t u (Inl e)) s)"
  by (simp_all add: reaches_def log_event_def)

lemma reaches_follow_up:
  "reaches s [EvFollowUp (findings_text s)] (log_event (EvFollowUp (findings_text s)) s)"
  by (simp add: reaches_def log_event_def)

lemma reaches_synthesis:
  "reaches s [EvSynthesize (synthesis_input s)] (log_event (EvSynthesize (synthesis_input s)) s)"
  by (simp add: reaches_def log_event_def)

lemma reaches_summarized:
  "reaches s [EvSummarize t u (Inr out)]
     (append_result \<lparr>title = t, url = u, summary = out\<rparr> (log_event (EvSummarize t u (Inr out)) s))"
  by (simp add: reaches_def log_event_def append_result_def)

lemma reaches_Cons:
  "reaches s [ev] s1 \<Longrightarrow> reaches s1 evs s2 \<Longrightarrow> reaches s (ev # evs) s2"
  using reaches_trans [of s "[ev]" s1 evs s2] by simp

text \<open>The events of the summarization loop.\<close>

lemma summarize_picks_reaches:
  "\<exists>evs. reaches s evs (snd (summarize_picks w picks s)) \<and> list_all is_query_event evs"
proof (induction picks arbitrary: s)
  case Nil
  show ?case using reaches_refl [of s] by auto
next
  case (Cons p picks)
  obtain sc t u where p: "p = (sc, t, u)" by (cases p)
  show ?case
  proof (cases "search_agent w (trace s) (summary_input t u)")
    case (Inl e)
    have "reaches s [EvSummarize t u (Inl e)] (snd (summarize_picks w (p # picks) s))"
      using Inl by (simp add: p reaches_plain)
    moreover have "list_all is_query_event [EvSummarize t u (Inl e)]" by simp
    ultimately show ?thesis by blast
  next
    case (Inr out)
    let ?s1 = "append_result \<lparr>title = t, url = u, summary = out\<rparr>
                 (log_event (EvSummarize t u (Inr out)) s)"
    obtain evs where e: "reaches ?s1 evs (snd (summarize_picks w picks ?s1))"
      and q: "list_all is_query_event evs"
      using Cons.IH [of ?s1] by blast
    have "reaches s (EvSummarize t u (Inr out) # evs) (snd (summarize_picks w picks ?s1))"
      using reaches_summarized e by (rule reaches_Cons)
    then have "reaches s (EvSummarize t u (Inr out) # evs) (snd (summarize_picks w (p # picks) s))"
      using Inr by (simp add: p)
    moreover have "list_all is_query_event (EvSummarize t u (Inr out) # evs)" using q by simp
    ultimately show ?thesis by blast
  qed
qed

lemma ddg_search_state: "\<exists>raw. ddg_search w q s = (raw, log_event (EvSearch q) s)"
  by (simp add: ddg_search_def split: sum.splits)

lemma research_query_reaches:
  "\<exists>evs. reaches s evs (snd (research_query w q s)) \<and> list_all is_query_event evs"
proof -
  let ?s1 = "log_event (EvSearch q) s"
  have s1: "reaches s [EvSearch q] ?s1" by (rule reaches_plain)
  obtain raw where d: "ddg_search w q s = (raw, ?s1)" using ddg_search_state by blast
  show ?thesis
  proof (cases "score_hits q raw")
    case (Inl e)
    then have "snd (research_query w q s) = ?s1"
      using d by (simp add: research_query_def)
    then show ?thesis using s1 by (intro exI [of _ "[EvSearch q]"]) simp
  next
    case (Inr ranked)
    obtain evs where e: "reaches ?s1 evs
        (snd (summarize_picks w (select_picks (picks_per_query ?s1) ranked) ?s1))"
      and q: "list_all is_query_event evs"
      using summarize_picks_reaches by blast
    have "snd (research_query w q s)
          = snd (summarize_picks w (select_picks (picks_per_query ?s1) ranked) ?s1)"
      using Inr d by (simp add: research_query_def)
    then have "reaches s (EvSearch q # evs) (snd (research_query w q s))"
      using reaches_Cons [OF s1 e] by simp
    then show ?thesis using q by (intro exI [of _ "EvSearch q # evs"]) simp
  qed
qed

lemma research_queries_reaches:
  "\<exists>evs. reaches s evs (snd (research_queries w qs s)) \<and> list_all is_query_event evs"
proof (induction qs arbitrary: s)
  case Nil
  show ?case using reaches_refl [of s] by auto
next
  case (Cons q qs)
  obtain r s1 where rq: "research_query w q s = (r, s1)" by (cases "research_query w q s")
  obtain a where a: "reaches s a s1" and qa: "list_all is_query_event a"
    using research_query_reaches [of s w q] rq by auto
  show ?case
  proof (cases r)
    case (Inl e)
    then show ?thesis using rq a qa by auto
  next
    case (Inr x)
    obtain b where b: "reaches s1 b (snd (research_queries w qs s1))"
      and qb: "list_all is_query_event b"
      using Cons.IH [of s1] by blast
    have "reaches s (a @ b) (snd (research_queries w (q # qs) s))"
      using reaches_trans [OF a b] rq Inr by simp
    moreover have "list_all is_query_event (a @ b)" using qa qb by simp
    ultimately show ?thesis by blast
  qed
qed


text \<open>Counting in traces.\<close>

lemma count_rounds_simps [simp]:
  "count_rounds [] = 0"
  "count_rounds (ev # evs) = (if is_round ev then Suc (count_rounds evs) else count_rounds evs)"
  "count_rounds (a @ b) = count_rounds a + count_rounds b"
  by (simp_all add: count_rounds_def)

lemma count_follow_ups_simps [simp]:
  "count_follow_ups [] = 0"
  "count_follow_ups (ev # evs)
     = (if is_follow_up ev then Suc (count_follow_ups evs) else count_follow_ups evs)"
  "count_follow_ups (a @ b) = count_follow_ups a + count_follow_ups b"
  by (simp_all add: count_follow_ups_def)

lemma query_events_counts:
  "list_all is_query_event evs \<Longrightarrow> count_rounds evs = 0 \<and> count_follow_ups evs = 0"
proof (induction evs)
  case Nil
  show ?case by simp
next
  case (Cons ev evs)
  then show ?case by (cases ev) simp_all
qed

lemma after_round_simps [simp]:
  "after_round n [] = []"
  "after_round n (ev # evs) = (if ev = EvRound n then evs else after_round n evs)"
  by (simp_all add: after_round_def)

lemma after_round_query_events:
  "list_all is_query_event evs \<Longrightarrow> after_round n (evs @ rest) = after_round n rest"
proof (induction evs)
  case Nil
  show ?case by simp
next
  case (Cons ev evs)
  then show ?case by (cases ev) simp_all
qed

lemma after_round_snoc:
  "\<not> is_follow_up ev \<Longrightarrow>
   count_follow_ups (after_round n (a @ [ev])) = count_follow_ups (after_round n a)"
  by (induction a) simp_all

text \<open>The follow-up loop, case by case.\<close>

lemma follow_up_decision_eq:
  "follow_up_decision w s =
     (follow_up_decision_agent w (trace s) (findings_text s),
      log_event (EvFollowUp (findings_text s)) s)"
  by (simp add: follow_up_decision_def Let_def)

lemma follow_up_loop_exit: "\<not> r < max_rounds s \<Longrightarrow> follow_up_loop w r s = (Inr (), s)"
  by (subst follow_up_loop.simps) simp

lemma follow_up_loop_raise:
  "r < max_rounds s \<Longrightarrow> follow_up_decision_agent w (trace s) (findings_text s) = Inl e \<Longrightarrow>
   follow_up_loop w r s = (Inl e, log_event (EvFollowUp (findings_text s)) s)"
  by (subst follow_up_loop.simps) (simp add: follow_up_decision_eq)

lemma follow_up_loop_stop:
  "r < max_rounds s \<Longrightarrow> follow_up_decision_agent w (trace s) (findings_text s) = Inr d \<Longrightarrow>
   \<not> should_follow_up d \<Longrightarrow>
   follow_up_loop w r s = (Inr (), log_event (EvFollowUp (findings_text s)) s)"
  by (subst follow_up_loop.simps) (simp add: follow_up_decision_eq)

lemma follow_up_loop_round_raise:
  "r < max_rounds s \<Longrightarrow> follow_up_decision_agent w (trace s) (findings_text s) = Inr d \<Longrightarrow>
   should_follow_up d \<Longrightarrow>
   research_queries w (queries d)
     (log_event (EvRound (r + 1)) (log_event (EvFollowUp (findings_text s)) s)) = (Inl e, s2) \<Longrightarrow>
   follow_up_loop w r s = (Inl e, s2)"
  by (subst follow_up_loop.simps) (simp add: follow_up_decision_eq)

lemma follow_up_loop_continue:
  "r < max_rounds s \<Longrightarrow> follow_up_decision_agent w (trace s) (findings_text s) = Inr d \<Longrightarrow>
   should_follow_up d \<Longrightarrow>
   research_queries w (queries d)
     (log_event (EvRound (r + 1)) (log_event (EvFollowUp (findings_text s)) s)) = (Inr x, s2) \<Longrightarrow>
   follow_up_loop w r s = follow_up_loop w (r + 1) s2"
  by (subst follow_up_loop.simps) (simp add: follow_up_decision_eq)


lemma reaches_max_rounds: "reaches s evs s' \<Longrightarrow> max_rounds s' = max_rounds s"
  by (simp add: reaches_def)

lemma follow_up_loop_reaches:
  "\<exists>evs. reaches s evs (snd (follow_up_loop w r s))
         \<and> count_rounds evs \<le> nat (max_rounds s - r)
         \<and> count_follow_ups evs \<le> nat (max_rounds s - r)
         \<and> count_follow_ups (after_round (max_rounds s) evs) = 0"
proof (induction w r s rule: follow_up_loop.induct)
  case (1 w r s)
  let ?f = "findings_text s"
  let ?s1 = "log_event (EvFollowUp ?f) s"
  let ?s1' = "log_event (EvRound (r + 1)) ?s1"
  have f1: "reaches s [EvFollowUp ?f] ?s1" by (rule reaches_follow_up)
  show ?case
  proof (cases "r < max_rounds s")
    case False
    then show ?thesis
      using reaches_refl [of s] by (intro exI [of _ "[]"]) (simp add: follow_up_loop_exit)
  next
    case lt: True
    have one: "reaches s [EvFollowUp ?f] ?s1
         \<and> count_rounds [EvFollowUp ?f] \<le> nat (max_rounds s - r)
         \<and> count_follow_ups [EvFollowUp ?f] \<le> nat (max_rounds s - r)
         \<and> count_follow_ups (after_round (max_rounds s) [EvFollowUp ?f]) = 0"
      using f1 lt by simp
    show ?thesis
    proof (cases "follow_up_decision_agent w (trace s) ?f")
      case (Inl e)
      then show ?thesis
        using one lt by (intro exI [of _ "[EvFollowUp ?f]"]) (simp add: follow_up_loop_raise)
    next
      case (Inr d)
      show ?thesis
      proof (cases "should_follow_up d")
        case False
        then show ?thesis
          using one lt Inr by (intro exI [of _ "[EvFollowUp ?f]"]) (simp add: follow_up_loop_stop)
      next
        case go: True
        obtain x s2 where rq: "research_queries w (queries d) ?s1' = (x, s2)"
          by (cases "research_queries w (queries d) ?s1'")
        obtain evq where eq: "reaches ?s1' evq s2" and qq: "list_all is_query_event evq"
          using research_queries_reaches [of ?s1' w "queries d"] rq by auto
        have c: "count_rounds evq = 0 \<and> count_follow_ups evq = 0"
          using qq by (rule query_events_counts)
        have r2: "reaches s ([EvFollowUp ?f, EvRound (r + 1)] @ evq) s2"
          using reaches_trans [OF reaches_Cons [OF f1 reaches_plain(2) [of ?s1 "r + 1"]] eq]
          by simp
        have m2: "max_rounds s2 = max_rounds s" using r2 by (rule reaches_max_rounds)
        show ?thesis
        proof (cases x)
          case (Inl e)
          have fl: "follow_up_loop w r s = (Inl e, s2)"
            using lt Inr go rq Inl by (simp add: follow_up_loop_round_raise)
          have "count_follow_ups (after_round (max_rounds s) ([EvFollowUp ?f, EvRound (r + 1)] @ evq)) = 0"
            using c after_round_query_events [OF qq, of "max_rounds s" "[]"] by simp
          then show ?thesis
            using r2 c lt fl
            by (intro exI [of _ "[EvFollowUp ?f, EvRound (r + 1)] @ evq"]) simp
        next
          case (Inr u)
          have fl: "follow_up_loop w r s = follow_up_loop w (r + 1) s2"
            using lt \<open>follow_up_decision_agent w (trace s) ?f = Inr d\<close> go rq Inr
            by (simp add: follow_up_loop_continue)
          have fd: "(Inr d, ?s1) = follow_up_decision w s"
            using \<open>follow_up_decision_agent w (trace s) ?f = Inr d\<close>
            by (simp add: follow_up_decision_eq)
          have ih: "\<exists>evs. reaches s2 evs (snd (follow_up_loop w (r + 1) s2))
             \<and> count_rounds evs \<le> nat (max_rounds s2 - (r + 1))
             \<and> count_follow_ups evs \<le> nat (max_rounds s2 - (r + 1))
             \<and> count_follow_ups (after_round (max_rounds s2) evs) = 0"
          proof -
            have nn: "\<not> \<not> should_follow_up d" using go by simp
            have rq': "(x, s2) = research_queries w (queries d) ?s1'" using rq by simp
            show ?thesis by (rule "1.IH" [OF lt fd refl nn rq' Inr])
          qed
          then obtain evl where el: "reaches s2 evl (snd (follow_up_loop w (r + 1) s2))"
            and cr: "count_rounds evl \<le> nat (max_rounds s - (r + 1))"
            and cf: "count_follow_ups evl \<le> nat (max_rounds s - (r + 1))"
            and ca: "count_follow_ups (after_round (max_rounds s) evl) = 0"
            using m2 by auto
          let ?evs = "([EvFollowUp ?f, EvRound (r + 1)] @ evq) @ evl"
          have a: "reaches s ?evs (snd (follow_up_loop w r s))"
            using reaches_trans [OF r2 el] fl by simp
          have b: "count_rounds ?evs \<le> nat (max_rounds s - r)"
            using c cr lt by simp
          have b': "count_follow_ups ?evs \<le> nat (max_rounds s - r)"
            using c cf lt by simp
          have "count_follow_ups (after_round (max_rounds s) (evq @ evl)) = 0"
            using ca after_round_query_events [OF qq, of "max_rounds s" evl] by simp
          moreover have "count_follow_ups (evq @ evl) = 0" if "r + 1 = max_rounds s"
            using c cf that by simp
          ultimately have d': "count_follow_ups (after_round (max_rounds s) ?evs) = 0"
            by simp
          show ?thesis using a b b' d' by blast
        qed
      qed
    qed
  qed
qed


text \<open>The whole call.\<close>

lemma synthesize_eq:
  "synthesize w s =
     (synthesis_agent w (trace s) (synthesis_input s),
      log_event (EvSynthesize (synthesis_input s)) s)"
  by (simp add: synthesize_def Let_def)

lemma research_query_agent_raise:
  "query_agent w (trace s) (query s) = Inl e \<Longrightarrow>
   research w s = (Inl e, log_event (EvQueryGen (query s)) s)"
  by (simp add: research_def)

lemma research_round_one_raise:
  "query_agent w (trace s) (query s) = Inr qr \<Longrightarrow>
   research_queries w (qr_queries qr)
     (log_event (EvRound 1)
        ((log_event (EvQueryGen (query s)) s)\<lparr>generated_queries := qr_queries qr\<rparr>)) = (Inl e, s2) \<Longrightarrow>
   research w s = (Inl e, s2)"
  by (simp add: research_def Let_def log_event_def)

lemma research_loop_raise:
  "query_agent w (trace s) (query s) = Inr qr \<Longrightarrow>
   research_queries w (qr_queries qr)
     (log_event (EvRound 1)
        ((log_event (EvQueryGen (query s)) s)\<lparr>generated_queries := qr_queries qr\<rparr>)) = (Inr x, s2) \<Longrightarrow>
   follow_up_loop w 1 s2 = (Inl e, s3) \<Longrightarrow>
   research w s = (Inl e, s3)"
  by (simp add: research_def Let_def log_event_def)

lemma research_synthesize:
  "query_agent w (trace s) (query s) = Inr qr \<Longrightarrow>
   research_queries w (qr_queries qr)
     (log_event (EvRound 1)
        ((log_event (EvQueryGen (query s)) s)\<lparr>generated_queries := qr_queries qr\<rparr>)) = (Inr x, s2) \<Longrightarrow>
   follow_up_loop w 1 s2 = (Inr y, s3) \<Longrightarrow>
   research w s = synthesize w s3"
  by (simp add: research_def Let_def log_event_def)

lemma reaches_generated:
  "reaches s [EvQueryGen (query s)] ((log_event (EvQueryGen (query s)) s)\<lparr>generated_queries := g\<rparr>)"
  by (simp add: reaches_def log_event_def)

lemma research_reaches:
  "\<exists>evs. reaches s evs (snd (research w s))
         \<and> count_rounds evs \<le> Suc (nat (max_rounds s - 1))
         \<and> count_follow_ups evs \<le> nat (max_rounds s - 1)
         \<and> count_follow_ups (after_round (max_rounds s) evs) = 0
         \<and> (case fst (research w s) of
              Inl e \<Rightarrow> True
            | Inr report \<Rightarrow> evs \<noteq> [] \<and> is_synthesis (last evs))"
proof (cases "query_agent w (trace s) (query s)")
  case (Inl e)
  have "reaches s [EvQueryGen (query s)] (snd (research w s))"
    using Inl by (simp add: research_query_agent_raise reaches_plain)
  moreover have "fst (research w s) = Inl e" using Inl by (simp add: research_query_agent_raise)
  ultimately show ?thesis by (intro exI [of _ "[EvQueryGen (query s)]"]) simp
next
  case (Inr qr)
  let ?s1 = "(log_event (EvQueryGen (query s)) s)\<lparr>generated_queries := qr_queries qr\<rparr>"
  let ?s1' = "log_event (EvRound 1) ?s1"
  let ?pre = "[EvQueryGen (query s), EvRound 1]"
  obtain x s2 where rq: "research_queries w (qr_queries qr) ?s1' = (x, s2)"
    by (cases "research_queries w (qr_queries qr) ?s1'")
  obtain evq where eq: "reaches ?s1' evq s2" and qq: "list_all is_query_event evq"
    using research_queries_reaches [of ?s1' w "qr_queries qr"] rq by auto
  have c: "count_rounds evq = 0 \<and> count_follow_ups evq = 0"
    using qq by (rule query_events_counts)
  have r2: "reaches s (?pre @ evq) s2"
    using reaches_trans [OF reaches_Cons [OF reaches_generated reaches_plain(2) [of ?s1 1]] eq]
    by simp
  have m2: "max_rounds s2 = max_rounds s" using r2 by (rule reaches_max_rounds)
  have a0: "count_follow_ups (after_round (max_rounds s) (?pre @ evq)) = 0"
    using c after_round_query_events [OF qq, of "max_rounds s" "[]"] by simp
  show ?thesis
  proof (cases x)
    case (Inl e)
    have "research w s = (Inl e, s2)"
      using \<open>query_agent w (trace s) (query s) = Inr qr\<close> rq Inl
      by (simp add: research_round_one_raise)
    then show ?thesis using r2 c a0 by (intro exI [of _ "?pre @ evq"]) simp
  next
    case x: (Inr u)
    obtain y s3 where fl: "follow_up_loop w 1 s2 = (y, s3)" by (cases "follow_up_loop w 1 s2")
    obtain evl where el: "reaches s2 evl s3"
      and cr: "count_rounds evl \<le> nat (max_rounds s - 1)"
      and cf: "count_follow_ups evl \<le> nat (max_rounds s - 1)"
      and ca: "count_follow_ups (after_round (max_rounds s) evl) = 0"
      using follow_up_loop_reaches [of s2 w 1] fl m2 by auto
    have r3: "reaches s ((?pre @ evq) @ evl) s3" using reaches_trans [OF r2 el] .
    have cr3: "count_rounds ((?pre @ evq) @ evl) \<le> Suc (nat (max_rounds s - 1))"
      using c cr by simp
    have cf3: "count_follow_ups ((?pre @ evq) @ evl) \<le> nat (max_rounds s - 1)"
      using c cf by simp
    have ae: "after_round (max_rounds s) (evq @ rest) = after_round (max_rounds s) rest" for rest
      using qq by (rule after_round_query_events)
    show ?thesis
    proof (cases y)
      case (Inl e)
      have "research w s = (Inl e, s3)"
        using \<open>query_agent w (trace s) (query s) = Inr qr\<close> rq x fl Inl
        by (simp add: research_loop_raise)
      moreover have "count_follow_ups (after_round (max_rounds s) ((?pre @ evq) @ evl)) = 0"
        using ca c cf ae [of evl] by auto
      ultimately show ?thesis
        using r3 cr3 cf3 by (intro exI [of _ "(?pre @ evq) @ evl"]) simp
    next
      case (Inr v)
      let ?syn = "EvSynthesize (synthesis_input s3)"
      have rs: "research w s = synthesize w s3"
        using \<open>query_agent w (trace s) (query s) = Inr qr\<close> rq x fl Inr
        by (simp add: research_synthesize)
      have r4: "reaches s (((?pre @ evq) @ evl) @ [?syn]) (snd (research w s))"
        using reaches_trans [OF r3 reaches_synthesis [of s3]] rs by (simp add: synthesize_eq)
      have "count_follow_ups (after_round (max_rounds s) (evl @ [?syn])) = 0"
        using ca after_round_snoc [of ?syn "max_rounds s" evl] by simp
      then have a4: "count_follow_ups (after_round (max_rounds s) (((?pre @ evq) @ evl) @ [?syn])) = 0"
        using c cf ae [of "evl @ [?syn]"] by auto
      have "count_rounds (((?pre @ evq) @ evl) @ [?syn]) \<le> Suc (nat (max_rounds s - 1))"
        using cr3 by simp
      moreover have "count_follow_ups (((?pre @ evq) @ evl) @ [?syn]) \<le> nat (max_rounds s - 1)"
        using cf3 by simp
      moreover have "case fst (research w s) of Inl e \<Rightarrow> True
          | Inr report \<Rightarrow> ((?pre @ evq) @ evl) @ [?syn] \<noteq> []
                          \<and> is_synthesis (last (((?pre @ evq) @ evl) @ [?syn]))"
        by (simp split: sum.splits)
      ultimately show ?thesis using r4 a4 by blast
    qed
  qed
qed

section \<open>Properties of the tokenizer and the scorer\<close>

lemmas token_defs =
  tokens_def lower_def lower_char_def py_split_def is_token_char_def py_isspace_def
  STOP_WORDS_def

lemmas eval_defs = match_score_def Let_def token_defs hit_fields_def dict_get_def py_or_def

text \<open>Evaluating float operations on numerals: floor and ceiling of a fraction of numerals,
  and the rounding without local bindings.\<close>

lemma floor_rat_divide_numeral [simp]:
  "\<lfloor>numeral a / numeral b :: rat\<rfloor> = numeral a div numeral b"
  "\<lfloor>1 / numeral b :: rat\<rfloor> = 1 div numeral b"
  by (metis floor_divide_of_int_eq of_int_numeral,
      metis floor_divide_of_int_eq of_int_numeral of_int_1)

lemma ceiling_rat_divide_numeral [simp]:
  "\<lceil>numeral a / numeral b :: rat\<rceil> = - (- numeral a div numeral b)"
  "\<lceil>1 / numeral b :: rat\<rceil> = - (- 1 div numeral b)"
  using ceiling_divide_eq_div [of "numeral a" "numeral b", where ?'a = rat]
    ceiling_divide_eq_div [of 1 "numeral b", where ?'a = rat]
  by simp_all

lemma rd_eval:
  "rd x = (if x = 0 then 0
           else sgn x * of_int (round_half_even (\<bar>x\<bar> / pow2 (max (ilog2 \<bar>x\<bar> - 52) (- 1074))))
                * pow2 (max (ilog2 \<bar>x\<bar> - 52) (- 1074)))"
  by (simp add: rd_def Let_def)

lemma round_half_even_eval:
  "round_half_even x =
     (if x - of_int \<lfloor>x\<rfloor> < 1 / 2 then \<lfloor>x\<rfloor>
      else if 1 / 2 < x - of_int \<lfloor>x\<rfloor> then \<lfloor>x\<rfloor> + 1
      else if even \<lfloor>x\<rfloor> then \<lfloor>x\<rfloor> else \<lfloor>x\<rfloor> + 1)"
  by (simp add: round_half_even_def Let_def)

lemmas float_eval =
  rd_eval round_half_even_eval ilog2_def pow2_def bit_length.simps float_mul_def float_add_def
  int_truediv_def

lemma rd_0 [simp]: "rd 0 = 0"
  by (simp add: rd_def)

lemma float_zero [simp]:
  "int_truediv 0 n = 0" "float_mul a 0 = 0" "float_add 0 0 = 0"
  by (simp_all add: int_truediv_def float_mul_def float_add_def)

lemma tok_PStr [simp]: "tok (PStr x) = Inr (tokens x)"
  by (simp add: tok_def py_or_def tokens_def lower_def py_split_def)

lemma tok_PNone [simp]: "tok PNone = Inr []"
  by (simp add: tok_def py_or_def tokens_def lower_def py_split_def)

lemma lower_char_not_upper: "lower_char c \<notin> set ''ABCDEFGHIJKLMNOPQRSTUVWXYZ''"
  by (auto simp: lower_char_def)

lemma spec_alnum_lower_char: "spec_alnum (lower_char c) = is_token_char (lower_char c)"
  using lower_char_not_upper [of c] by (auto simp: spec_alnum_def is_token_char_def)

lemma py_in_sublist: "py_in a b \<longleftrightarrow> sublist a b"
  by (induction b) (auto simp: sublist_Cons_right)

lemma split_from_no_empty: "[] \<notin> set (split_from cur s)"
  by (induction s arbitrary: cur) auto

lemma spec_replace_runs_split:
  "spec_replace_runs xs = takeWhile spec_alnum xs @ spec_replace_runs (dropWhile spec_alnum xs)"
proof (cases "xs \<noteq> [] \<and> spec_alnum (hd xs)")
  case True
  then show ?thesis by (subst spec_replace_runs.simps) simp
next
  case False
  then have "takeWhile spec_alnum xs = []" and "dropWhile spec_alnum xs = xs"
    by (cases xs; simp)+
  then show ?thesis by simp
qed

lemma TOKEN_RE_sub_spec:
  "\<forall>c \<in> set xs. spec_alnum c = is_token_char c \<Longrightarrow> TOKEN_RE_sub xs = spec_replace_runs xs"
proof (induction xs rule: TOKEN_RE_sub.induct)
  case 1
  show ?case by (simp add: spec_replace_runs.simps)
next
  case (2 c cs)
  show ?case
  proof (cases "is_token_char c")
    case True
    then have al: "spec_alnum c" using 2 by simp
    have "TOKEN_RE_sub cs = spec_replace_runs cs" using 2 True by simp
    also have "\<dots> = takeWhile spec_alnum cs @ spec_replace_runs (dropWhile spec_alnum cs)"
      by (rule spec_replace_runs_split)
    finally show ?thesis using True al
      by (subst spec_replace_runs.simps) simp
  next
    case False
    then have nal: "\<not> spec_alnum c" using 2 by simp
    have eq: "dropWhile (\<lambda>d. \<not> is_token_char d) cs = dropWhile (\<lambda>d. \<not> spec_alnum d) cs"
      using 2(3) by (intro dropWhile_cong) auto
    have "\<forall>d \<in> set (dropWhile (\<lambda>d. \<not> is_token_char d) cs). spec_alnum d = is_token_char d"
      using 2(3) by (auto dest: set_dropWhileD)
    then have "TOKEN_RE_sub (dropWhile (\<lambda>d. \<not> is_token_char d) cs)
               = spec_replace_runs (dropWhile (\<lambda>d. \<not> is_token_char d) cs)"
      using 2(2) False by simp
    then show ?thesis using False nal eq
      by (subst spec_replace_runs.simps) simp
  qed
qed

lemma tokens_spec_tokenize: "tokens s = spec_tokenize s"
proof -
  have "TOKEN_RE_sub (lower s) = spec_replace_runs (lower s)"
    by (rule TOKEN_RE_sub_spec) (auto simp: lower_def spec_alnum_lower_char)
  moreover have "filter (\<lambda>t. t \<noteq> [] \<and> t \<notin> set STOP_WORDS) (py_split xs)
                 = filter (\<lambda>t. t \<notin> set STOP_WORDS) (py_split xs)" for xs
    by (rule filter_cong) (use split_from_no_empty in \<open>auto simp: py_split_def\<close>)
  ultimately show ?thesis by (simp add: tokens_def spec_tokenize_def)
qed

lemma match_score_strings:
  "match_score (PStr q) (PStr t) (PStr u) (PStr s) =
     Inr (if set (tokens q) = {} then 0 else spec_score q t u s)"
  by (simp add: match_score_def Let_def spec_score_def spec_phrase_bonus_def overlap_def
      py_in_sublist tokens_spec_tokenize)

text \<open>
  Claim C2 (scorer reference definition), as amended. For string arguments whose query
  keeps at least one token, \<^verbatim>\<open>_match_score\<close> returns the value of the reference formula
  \<open>0.6 * overlap T + 0.25 * overlap S + 0.15 * overlap U + phrase_bonus\<close> over the token
  sets of the specification's tokenizer, evaluated in float arithmetic; for a query that
  keeps no token (empty, or stop words only) it returns exactly 0.
\<close>

theorem scorer_reference_definition:
  "(spec_tokenize q \<noteq> [] \<longrightarrow>
      match_score (PStr q) (PStr t) (PStr u) (PStr s) = Inr (spec_score q t u s))
   \<and> (spec_tokenize q = [] \<longrightarrow> match_score (PStr q) (PStr t) (PStr u) (PStr s) = Inr 0)"
  by (simp add: match_score_strings tokens_spec_tokenize)

theorem scorer_reference_definition_witness:
  "spec_tokenize ''Canada population'' \<noteq> []
   \<and> match_score (PStr ''Canada population'') (PStr ''Population of Canada'')
        (PStr ''http://x.org/canada'') (PStr [])
       = Inr (rd (6749999999999999 / 10000000000000000))
   \<and> spec_score ''Canada population'' ''Population of Canada'' ''http://x.org/canada'' []
       = rd (6749999999999999 / 10000000000000000)
   \<and> rd (6749999999999999 / 10000000000000000) = 6079859496950169 / 9007199254740992
   \<and> spec_tokenize ''the of'' = []
   \<and> match_score (PStr ''the of'') (PStr ''the'') (PStr ''of'') (PStr ''the'') = Inr 0"
proof -
  have a: "spec_tokenize ''Canada population'' \<noteq> []" by code_simp
  have v: "rd (6749999999999999 / 10000000000000000) = 6079859496950169 / 9007199254740992"
    by (simp add: float_eval)
  have "match_score (PStr ''Canada population'') (PStr ''Population of Canada'')
          (PStr ''http://x.org/canada'') (PStr []) = Inr (6079859496950169 / 9007199254740992)"
    apply (simp add: eval_defs)
    apply (simp add: float_eval)
    done
  then have b: "match_score (PStr ''Canada population'') (PStr ''Population of Canada'')
          (PStr ''http://x.org/canada'') (PStr [])
        = Inr (rd (6749999999999999 / 10000000000000000))"
    by (simp only: v)
  have c: "spec_tokenize ''the of'' = []" by code_simp
  note t1 = scorer_reference_definition [of "''Canada population''" "''Population of Canada''"
        "''http://x.org/canada''" "[]"]
  note t2 = scorer_reference_definition [of "''the of''" "''the''" "''of''" "''the''"]
  have d: "spec_score ''Canada population'' ''Population of Canada'' ''http://x.org/canada'' []
       = rd (6749999999999999 / 10000000000000000)"
    using t1 a b by simp
  have e: "match_score (PStr ''the of'') (PStr ''the'') (PStr ''of'') (PStr ''the'') = Inr 0"
    using t2 c by simp
  show ?thesis by (intro conjI) (rule a b d v c e)+
qed

text \<open>
  Claim C2 as stated fails for a query without tokens: the space-joined query is then the
  empty string, which is a contiguous part of every title string, so the reference formula
  yields the phrase bonus 0.1, while \<^verbatim>\<open>_match_score\<close> returns 0.
\<close>

theorem scorer_reference_definition_counterexample:
  "match_score (PStr []) (PStr []) (PStr []) (PStr []) \<noteq> Inr (spec_score [] [] [] [])"
proof -
  have "spec_score [] [] [] [] = float_add 0 (rd (1 / 10))"
    by (simp add: spec_score_def spec_phrase_bonus_def overlap_def spec_tokenize_def lower_def
        py_split_def spec_replace_runs.simps)
  moreover have "float_add 0 (rd (1 / 10)) = 3602879701896397 / 36028797018963968"
    by (simp add: float_eval)
  moreover have "match_score (PStr []) (PStr []) (PStr []) (PStr []) = Inr 0"
    by (simp add: match_score_strings tokens_def lower_def py_split_def)
  ultimately show ?thesis by simp
qed

text \<open>
  Claim C8 (scorer range): the claim puts every score in the interval from 0 to 1, and the
  docstring of \<^verbatim>\<open>_match_score\<close> announces a 0-1 score. When the query tokens all occur in
  title, snippet and url and the phrase bonus applies, the weights add up to 1 and the
  bonus comes on top: the score is the float 1.1.
\<close>

theorem match_score_exceeds_one:
  "match_score (PStr ''canada'') (PStr ''canada'') (PStr ''canada'') (PStr ''canada'')
     = Inr (rd (11 / 10))
   \<and> 1 < rd (11 / 10)"
proof -
  have v: "rd (11 / 10) = 2476979795053773 / 2251799813685248" by (simp add: float_eval)
  have "match_score (PStr ''canada'') (PStr ''canada'') (PStr ''canada'') (PStr ''canada'')
        = Inr (2476979795053773 / 2251799813685248)"
    apply (simp add: eval_defs)
    apply (simp add: float_eval)
    done
  then show ?thesis by (simp add: v)
qed

lemma tok_str_or_empty: "str_or_none v \<Longrightarrow> tok v = Inr (tokens (str_or_empty v))"
  by (cases v) (simp_all add: str_or_none_def str_or_empty_def tokens_def lower_def py_split_def)

lemma match_score_tok_cong:
  "tok a = tok a' \<Longrightarrow> tok b = tok b' \<Longrightarrow> tok c = tok c' \<Longrightarrow> tok d = tok d' \<Longrightarrow>
   match_score a b c d = match_score a' b' c' d'"
  by (simp add: match_score_def cong: sum.case_cong if_cong)

lemma match_score_coerce:
  assumes "str_or_none a" "str_or_none b" "str_or_none c" "str_or_none d"
  shows "match_score a b c d =
         match_score (PStr (str_or_empty a)) (PStr (str_or_empty b)) (PStr (str_or_empty c))
           (PStr (str_or_empty d))"
  by (rule match_score_tok_cong) (simp_all add: assms tok_str_or_empty)

lemma match_score_no_query: "tok qv = Inr [] \<Longrightarrow> match_score qv t u sn = Inr 0"
  by (simp add: match_score_def)

lemma tokens_Nil [simp]: "tokens [] = []"
  by (simp add: tokens_def lower_def py_split_def)

lemma tokens_no_empty: "[] \<notin> set (tokens x)"
  by (simp add: tokens_def)

lemma py_join_eq_Nil: "[] \<notin> set ts \<Longrightarrow> py_join sep ts = [] \<longleftrightarrow> ts = []"
  by (induction sep ts rule: py_join.induct) auto

lemma match_score_all_empty: "match_score (PStr q) (PStr []) (PStr []) (PStr []) = Inr 0"
  by (simp add: match_score_def Let_def py_join_eq_Nil tokens_no_empty)

lemma str_or_none_dict_get: "field_ok r k \<Longrightarrow> str_or_none (dict_get r k (PStr []))"
  by (auto simp: field_ok_def dict_get_def str_or_none_def split: option.splits)

lemma str_or_none_py_or: "str_or_none a \<Longrightarrow> str_or_none b \<Longrightarrow> str_or_none (py_or a b)"
  by (simp add: py_or_def)

lemma dict_get_field_empty: "field_empty r k \<Longrightarrow> str_or_empty (dict_get r k (PStr [])) = []"
  by (auto simp: field_empty_def dict_get_def str_or_empty_def)

lemma hit_fields_ok:
  assumes "field_ok r ''title''" "field_ok r ''href''" "field_ok r ''body''" "field_ok r ''snippet''"
    and "hit_fields r = (t, u, sn)"
  shows "str_or_none t \<and> str_or_none u \<and> str_or_none sn"
proof -
  have "str_or_none (PStr [])" by (simp add: str_or_none_def)
  then show ?thesis
    using assms by (auto simp: hit_fields_def intro!: str_or_none_dict_get str_or_none_py_or)
qed

text \<open>
  Claim C10 (totality of tokenization and scoring). \<^verbatim>\<open>_tok\<close> returns the empty token list
  for \<^verbatim>\<open>None\<close> and for the empty string, and \<^verbatim>\<open>_match_score\<close> returns 0 for such a query
  whatever the hit holds. For a query that is a string or \<^verbatim>\<open>None\<close> and a hit whose title,
  href, body and snippet entries are each missing, \<^verbatim>\<open>None\<close> or a string, scoring returns a
  value (it does not raise), the same value as for the strings obtained by reading every
  missing or \<^verbatim>\<open>None\<close> entry as the empty string; and a hit with none of the four entries
  scores 0.
\<close>

theorem scoring_total:
  "tok PNone = Inr [] \<and> tok (PStr []) = Inr []
   \<and> (\<forall>t u sn. match_score PNone t u sn = Inr 0 \<and> match_score (PStr []) t u sn = Inr 0)
   \<and> (str_or_none qv \<and> field_ok r ''title'' \<and> field_ok r ''href'' \<and> field_ok r ''body''
        \<and> field_ok r ''snippet'' \<longrightarrow>
       (case hit_fields r of
          (t, u, sn) \<Rightarrow>
            (\<exists>x. match_score qv t u sn = Inr x)
            \<and> match_score qv t u sn =
                match_score (PStr (str_or_empty qv)) (PStr (str_or_empty t))
                  (PStr (str_or_empty u)) (PStr (str_or_empty sn))))
   \<and> (str_or_none qv \<and> field_empty r ''title'' \<and> field_empty r ''href''
        \<and> field_empty r ''body'' \<and> field_empty r ''snippet'' \<longrightarrow>
       (case hit_fields r of (t, u, sn) \<Rightarrow> match_score qv t u sn = Inr 0))"
proof (intro conjI allI impI)
  show "tok PNone = Inr []" by simp
  show "tok (PStr []) = Inr []" by simp
  show "match_score PNone t u sn = Inr 0" for t u sn by (simp add: match_score_no_query)
  show "match_score (PStr []) t u sn = Inr 0" for t u sn by (simp add: match_score_no_query)
next
  assume a: "str_or_none qv \<and> field_ok r ''title'' \<and> field_ok r ''href''
             \<and> field_ok r ''body'' \<and> field_ok r ''snippet''"
  obtain t u sn where h: "hit_fields r = (t, u, sn)" by (cases "hit_fields r")
  have ok: "str_or_none t \<and> str_or_none u \<and> str_or_none sn"
    using a h hit_fields_ok [of r t u sn] by simp
  have eq: "match_score qv t u sn =
        match_score (PStr (str_or_empty qv)) (PStr (str_or_empty t))
          (PStr (str_or_empty u)) (PStr (str_or_empty sn))"
    using a ok by (simp add: match_score_coerce)
  then have "\<exists>x. match_score qv t u sn = Inr x" by (simp add: match_score_strings)
  then show "case hit_fields r of
          (t, u, sn) \<Rightarrow>
            (\<exists>x. match_score qv t u sn = Inr x)
            \<and> match_score qv t u sn =
                match_score (PStr (str_or_empty qv)) (PStr (str_or_empty t))
                  (PStr (str_or_empty u)) (PStr (str_or_empty sn))"
    using eq h by simp
next
  assume a: "str_or_none qv \<and> field_empty r ''title'' \<and> field_empty r ''href''
        \<and> field_empty r ''body'' \<and> field_empty r ''snippet''"
  obtain t u sn where h: "hit_fields r = (t, u, sn)" by (cases "hit_fields r")
  have fo: "field_ok r ''title'' \<and> field_ok r ''href'' \<and> field_ok r ''body'' \<and> field_ok r ''snippet''"
    using a by (auto simp: field_empty_def field_ok_def str_or_none_def)
  have ok: "str_or_none t \<and> str_or_none u \<and> str_or_none sn"
    using fo h hit_fields_ok [of r t u sn] by simp
  have e: "str_or_empty t = [] \<and> str_or_empty u = [] \<and> str_or_empty sn = []"
    using a h by (auto simp: hit_fields_def field_empty_def dict_get_def py_or_def str_or_empty_def)
  have "match_score qv t u sn = Inr 0"
    using a ok e match_score_coerce [of qv t u sn] by (simp add: match_score_all_empty)
  then show "case hit_fields r of (t, u, sn) \<Rightarrow> match_score qv t u sn = Inr 0"
    using h by simp
qed


theorem scoring_total_witness:
  "str_or_none (PStr ''canada'')
   \<and> field_ok [''title'' \<mapsto> PNone, ''body'' \<mapsto> PStr ''canada facts''] ''title''
   \<and> field_ok [''title'' \<mapsto> PNone, ''body'' \<mapsto> PStr ''canada facts''] ''href''
   \<and> field_ok [''title'' \<mapsto> PNone, ''body'' \<mapsto> PStr ''canada facts''] ''body''
   \<and> field_ok [''title'' \<mapsto> PNone, ''body'' \<mapsto> PStr ''canada facts''] ''snippet''
   \<and> (case hit_fields [''title'' \<mapsto> PNone, ''body'' \<mapsto> PStr ''canada facts''] of
        (t, u, sn) \<Rightarrow> match_score (PStr ''canada'') t u sn = Inr (1 / 4))
   \<and> field_empty [''title'' \<mapsto> PNone] ''title'' \<and> field_empty [''title'' \<mapsto> PNone] ''href''
   \<and> field_empty [''title'' \<mapsto> PNone] ''body'' \<and> field_empty [''title'' \<mapsto> PNone] ''snippet''
   \<and> (case hit_fields [''title'' \<mapsto> PNone] of
        (t, u, sn) \<Rightarrow> match_score (PStr ''canada'') t u sn = Inr 0)"
proof -
  have s1: "match_score (PStr ''canada'') PNone (PStr []) (PStr ''canada facts'') = Inr (1 / 4)"
    apply (simp add: eval_defs)
    apply (simp add: float_eval)
    done
  have s2: "match_score (PStr ''canada'') PNone (PStr []) (PStr []) = Inr 0"
    by (simp add: eval_defs)
  show ?thesis
    using scoring_total [of "PStr ''canada''" "[''title'' \<mapsto> PNone, ''body'' \<mapsto> PStr ''canada facts'']"]
      scoring_total [of "PStr ''canada''" "[''title'' \<mapsto> PNone]"]
    by (simp add: str_or_none_def field_ok_def field_empty_def hit_fields_def dict_get_def
        py_or_def str_or_empty_def s1 s2)
qed

section \<open>Properties of the ranker\<close>

lemma sort_reverse_set [simp]: "set (sort_reverse xs) = set xs"
  by (simp add: sort_reverse_def)

lemma sort_reverse_length [simp]: "length (sort_reverse xs) = length xs"
  by (simp add: sort_reverse_def)

lemma sort_reverse_Nil_iff [simp]: "sort_reverse xs = [] \<longleftrightarrow> xs = []"
  using sort_reverse_length [of xs] by (metis length_0_conv)

lemma sort_reverse_descending: "sorted_wrt (\<lambda>a b. fst b \<le> fst a) (sort_reverse xs)"
proof -
  have "sorted (map fst (sort_key fst (rev xs)))" by (rule sorted_sort_key)
  then have "sorted_wrt (\<lambda>a b. fst a \<le> fst b) (sort_key fst (rev xs))"
    by (simp add: sorted_wrt_map)
  then show ?thesis by (simp add: sort_reverse_def sorted_wrt_rev)
qed

lemma sort_reverse_stable:
  "filter (\<lambda>y. fst y = k) (sort_reverse xs) = filter (\<lambda>y. fst y = k) xs"
proof -
  have "filter (\<lambda>y. fst y = k) (sort_reverse xs)
        = rev (filter (\<lambda>y. fst y = k) (sort_key fst (rev xs)))"
    by (simp add: sort_reverse_def rev_filter)
  also have "\<dots> = rev (filter (\<lambda>y. fst y = k) (rev xs))" by (simp only: sort_key_stable)
  also have "\<dots> = filter (\<lambda>y. fst y = k) xs" by (simp add: rev_filter)
  finally show ?thesis .
qed

lemma hd_sort_reverse:
  assumes "xs \<noteq> []"
  shows "hd (sort_reverse xs) = hd (filter (\<lambda>y. fst y = Max (fst ` set xs)) xs)"
proof -
  obtain y ys where ys: "sort_reverse xs = y # ys"
    using assms by (cases "sort_reverse xs") auto
  have "\<forall>z \<in> set ys. fst z \<le> fst y"
    using sort_reverse_descending [of xs] ys by simp
  then have ge: "\<forall>z \<in> set xs. fst z \<le> fst y"
    using sort_reverse_set [of xs] ys by auto
  have "y \<in> set xs" using sort_reverse_set [of xs] ys by auto
  then have m: "Max (fst ` set xs) = fst y"
    using ge by (intro Max_eqI) auto
  have "filter (\<lambda>z. fst z = fst y) xs = filter (\<lambda>z. fst z = fst y) (sort_reverse xs)"
    by (simp add: sort_reverse_stable)
  also have "\<dots> = y # filter (\<lambda>z. fst z = fst y) ys" using ys by simp
  finally show ?thesis using m ys by simp
qed

lemma score_hits_scored:
  "score_hits q raw = Inr ranked \<Longrightarrow>
   list_all2 (\<lambda>r c. case hit_fields r of
                      (t, u, sn) \<Rightarrow> match_score (PStr q) t u sn = Inr (fst c) \<and> snd c = (t, u))
     raw ranked"
  by (induction raw arbitrary: ranked) (auto split: prod.splits sum.splits)

lemma score_hits_length: "score_hits q raw = Inr ranked \<Longrightarrow> length ranked = length raw"
  by (drule score_hits_scored) (rule list_all2_lengthD [symmetric])

lemma slice_to_nonneg: "0 \<le> n \<Longrightarrow> slice_to n xs = take (nat n) xs"
  by (simp add: slice_to_def)

lemma slice_to_Nil [simp]: "slice_to n [] = []"
  by (simp add: slice_to_def)


lemma select_picks_kept:
  assumes "1 \<le> ppq" and "\<exists>x \<in> set ranked. MIN_SCORE \<le> fst x"
  shows "select_picks ppq ranked
           = take (nat ppq) (filter (\<lambda>x. MIN_SCORE \<le> fst x) (sort_reverse ranked))"
proof -
  define kept where "kept = filter (\<lambda>x. MIN_SCORE \<le> fst x) (sort_reverse ranked)"
  have "kept \<noteq> []" using assms(2) by (simp add: kept_def filter_empty_conv)
  then obtain y ys where k: "kept = y # ys" by (cases kept) auto
  obtain n where n: "nat ppq = Suc n" using assms(1) by (cases "nat ppq") auto
  have ne: "take (nat ppq) kept \<noteq> []" by (simp add: k n)
  have "slice_to ppq kept = take (nat ppq) kept" using assms(1) by (simp add: slice_to_def)
  then have "select_picks ppq ranked = take (nat ppq) kept"
    unfolding select_picks_def Let_def kept_def [symmetric] using ne by simp
  then show ?thesis by (simp add: kept_def)
qed

text \<open>
  Claim C3 (ranker output shape), as amended. For every list of scored candidates,
  whenever \<open>picks_per_query\<close> is at least 1 and at least one score is 0.26 or more, the
  picks are the candidates stable-sorted in non-increasing score order (candidates of equal
  score keep their original relative order), restricted to the scores of at least 0.26 and
  cut to the first \<open>picks_per_query\<close> entries. The scored candidates of a query are those the
  scoring loop builds: one per raw hit, in the order of the hits, with the float score
  \<^verbatim>\<open>_match_score\<close> returns for the hit.
\<close>

theorem ranker_output_shape:
  assumes "1 \<le> ppq" and "\<exists>x \<in> set ranked. MIN_SCORE \<le> fst x"
  shows "select_picks ppq ranked
             = take (nat ppq) (filter (\<lambda>x. MIN_SCORE \<le> fst x) (sort_reverse ranked))
         \<and> sorted_wrt (\<lambda>a b. fst b \<le> fst a) (sort_reverse ranked)
         \<and> (\<forall>k. filter (\<lambda>y. fst y = k) (sort_reverse ranked) = filter (\<lambda>y. fst y = k) ranked)
         \<and> length (sort_reverse ranked) = length ranked
         \<and> sorted_wrt (\<lambda>a b. fst b \<le> fst a) (select_picks ppq ranked)
         \<and> length (select_picks ppq ranked) \<le> nat ppq
         \<and> (\<forall>x \<in> set (select_picks ppq ranked). MIN_SCORE \<le> fst x)
         \<and> (score_hits q raw = Inr ranked \<longrightarrow>
              list_all2 (\<lambda>r c. case hit_fields r of
                      (t, u, sn) \<Rightarrow> match_score (PStr q) t u sn = Inr (fst c) \<and> snd c = (t, u))
                raw ranked)"
proof -
  define kept where "kept = filter (\<lambda>x. MIN_SCORE \<le> fst x) (sort_reverse ranked)"
  have sel: "select_picks ppq ranked = take (nat ppq) kept"
    using assms by (simp add: select_picks_kept kept_def)
  have c1: "score_hits q raw = Inr ranked \<longrightarrow>
              list_all2 (\<lambda>r c. case hit_fields r of
                      (t, u, sn) \<Rightarrow> match_score (PStr q) t u sn = Inr (fst c) \<and> snd c = (t, u))
                raw ranked"
    by (blast intro: score_hits_scored)
  have c3: "sorted_wrt (\<lambda>a b. fst b \<le> fst a) (sort_reverse ranked)"
    by (rule sort_reverse_descending)
  have c4: "\<forall>k. filter (\<lambda>y. fst y = k) (sort_reverse ranked) = filter (\<lambda>y. fst y = k) ranked"
    by (simp only: sort_reverse_stable) simp
  have c5: "length (sort_reverse ranked) = length ranked" by (rule sort_reverse_length)
  have "sorted_wrt (\<lambda>a b. fst b \<le> fst a) kept"
    unfolding kept_def using c3 by (rule sorted_wrt_filter)
  then have c6: "sorted_wrt (\<lambda>a b. fst b \<le> fst a) (select_picks ppq ranked)"
    unfolding sel by (rule sorted_wrt_take)
  have c7: "length (select_picks ppq ranked) \<le> nat ppq" unfolding sel by simp
  have "\<forall>x \<in> set kept. MIN_SCORE \<le> fst x" by (simp add: kept_def)
  then have c8: "\<forall>x \<in> set (select_picks ppq ranked). MIN_SCORE \<le> fst x"
    unfolding sel by (blast dest: in_set_takeD)
  have c2: "select_picks ppq ranked
             = take (nat ppq) (filter (\<lambda>x. MIN_SCORE \<le> fst x) (sort_reverse ranked))"
    using sel by (simp only: kept_def)
  from c1 c2 c3 c4 c5 c6 c7 c8 show ?thesis by blast
qed

text \<open>Two hits that tie at 7/10 in exact arithmetic: the floats are 0.7 for the first and
  0.7000000000000001 for the second, and the second is picked.\<close>

theorem ranker_output_shape_witness:
  "score_hits ''canada population''
     [[''title'' \<mapsto> PStr ''Canada population''],
      [''title'' \<mapsto> PStr ''Canada'', ''href'' \<mapsto> PStr ''canada.example/population'',
       ''body'' \<mapsto> PStr ''canada population'']]
     = Inr [(rd (7 / 10), PStr ''Canada population'', PStr []),
            (rd (7000000000000001 / 10000000000000000), PStr ''Canada'',
             PStr ''canada.example/population'')]
   \<and> rd (7 / 10) = 3152519739159347 / 4503599627370496
   \<and> rd (7000000000000001 / 10000000000000000) = 6305039478318695 / 9007199254740992
   \<and> (1 :: int) \<le> 1
   \<and> (\<exists>x \<in> set [(rd (7 / 10), PStr ''Canada population'', PStr []),
                    (rd (7000000000000001 / 10000000000000000), PStr ''Canada'',
                     PStr ''canada.example/population'')]. MIN_SCORE \<le> fst x)
   \<and> select_picks 1 [(rd (7 / 10), PStr ''Canada population'', PStr []),
                      (rd (7000000000000001 / 10000000000000000), PStr ''Canada'',
                       PStr ''canada.example/population'')]
       = [(rd (7000000000000001 / 10000000000000000), PStr ''Canada'',
           PStr ''canada.example/population'')]"
proof -
  have v1: "rd (7 / 10) = 3152519739159347 / 4503599627370496" by (simp add: float_eval)
  have v2: "rd (7000000000000001 / 10000000000000000) = 6305039478318695 / 9007199254740992"
    by (simp add: float_eval)
  have m: "MIN_SCORE = 1170935903116329 / 4503599627370496"
    by (simp add: MIN_SCORE_def float_eval)
  have "score_hits ''canada population''
     [[''title'' \<mapsto> PStr ''Canada population''],
      [''title'' \<mapsto> PStr ''Canada'', ''href'' \<mapsto> PStr ''canada.example/population'',
       ''body'' \<mapsto> PStr ''canada population'']]
     = Inr [(3152519739159347 / 4503599627370496, PStr ''Canada population'', PStr []),
            (6305039478318695 / 9007199254740992, PStr ''Canada'',
             PStr ''canada.example/population'')]"
    apply (simp add: eval_defs)
    apply (simp add: float_eval)
    done
  then have a: "score_hits ''canada population''
     [[''title'' \<mapsto> PStr ''Canada population''],
      [''title'' \<mapsto> PStr ''Canada'', ''href'' \<mapsto> PStr ''canada.example/population'',
       ''body'' \<mapsto> PStr ''canada population'']]
     = Inr [(rd (7 / 10), PStr ''Canada population'', PStr []),
            (rd (7000000000000001 / 10000000000000000), PStr ''Canada'',
             PStr ''canada.example/population'')]"
    by (simp only: v1 v2)
  have b: "\<exists>x \<in> set [(rd (7 / 10), PStr ''Canada population'', PStr []),
                    (rd (7000000000000001 / 10000000000000000), PStr ''Canada'',
                     PStr ''canada.example/population'')]. MIN_SCORE \<le> fst x"
    by (simp add: v1 m)
  have c: "(1 :: int) \<le> 1" by simp
  have sel: "select_picks 1 [(rd (7 / 10), PStr ''Canada population'', PStr []),
                      (rd (7000000000000001 / 10000000000000000), PStr ''Canada'',
                       PStr ''canada.example/population'')]
       = [(rd (7000000000000001 / 10000000000000000), PStr ''Canada'',
           PStr ''canada.example/population'')]"
    using ranker_output_shape [OF c b, THEN conjunct1]
    by (simp add: sort_reverse_def v1 v2 m)
  show ?thesis by (intro conjI) (rule a v1 v2 c b sel)+
qed

text \<open>
  Claim C3 as stated, for every \<open>picks_per_query\<close>, fails at \<open>picks_per_query = 0\<close>: the
  slice is empty, the fallback branch (\<^verbatim>\<open>if not picks and ranked\<close>) fires although a hit
  clears the threshold, and one candidate is returned where the claim allows none.
\<close>

theorem ranker_output_shape_counterexample:
  "score_hits ''canada'' [[''title'' \<mapsto> PStr ''Canada'']] = Inr [(rd (7 / 10), PStr ''Canada'', PStr [])]
   \<and> MIN_SCORE \<le> rd (7 / 10)
   \<and> select_picks 0 [(rd (7 / 10), PStr ''Canada'', PStr [])] = [(rd (7 / 10), PStr ''Canada'', PStr [])]
   \<and> take (nat 0) (filter (\<lambda>x. MIN_SCORE \<le> fst x) (sort_reverse [(rd (7 / 10), PStr ''Canada'', PStr [])]))
       = []
   \<and> \<not> length (select_picks 0 [(rd (7 / 10), PStr ''Canada'', PStr [])]) \<le> nat 0"
proof -
  have v1: "rd (7 / 10) = 3152519739159347 / 4503599627370496" by (simp add: float_eval)
  have m: "MIN_SCORE = 1170935903116329 / 4503599627370496"
    by (simp add: MIN_SCORE_def float_eval)
  have "score_hits ''canada'' [[''title'' \<mapsto> PStr ''Canada'']]
        = Inr [(3152519739159347 / 4503599627370496, PStr ''Canada'', PStr [])]"
    apply (simp add: eval_defs)
    apply (simp add: float_eval)
    done
  then have a: "score_hits ''canada'' [[''title'' \<mapsto> PStr ''Canada'']]
        = Inr [(rd (7 / 10), PStr ''Canada'', PStr [])]"
    by (simp only: v1)
  have b: "MIN_SCORE \<le> rd (7 / 10)" by (simp add: v1 m)
  have c: "select_picks 0 [(rd (7 / 10), PStr ''Canada'', PStr [])]
           = [(rd (7 / 10), PStr ''Canada'', PStr [])]"
    by (simp add: select_picks_def sort_reverse_def slice_to_def)
  show ?thesis using a b c by simp
qed

lemma slice_to_one: "xs \<noteq> [] \<Longrightarrow> slice_to 1 xs = [hd xs]"
  by (cases xs) (simp_all add: slice_to_def)

lemma select_picks_fallback:
  assumes "ranked \<noteq> []" and "\<forall>x \<in> set ranked. fst x < MIN_SCORE"
  shows "select_picks ppq ranked = [hd (sort_reverse ranked)]"
proof -
  have "filter (\<lambda>x. MIN_SCORE \<le> fst x) (sort_reverse ranked) = []"
    using assms(2) by (auto simp: filter_empty_conv)
  then have "select_picks ppq ranked = slice_to 1 (sort_reverse ranked)"
    using assms(1) by (simp add: select_picks_def Let_def)
  then show ?thesis using assms(1) by (simp add: slice_to_one)
qed

lemma select_picks_nonempty:
  assumes "ranked \<noteq> []"
  shows "select_picks ppq ranked \<noteq> []"
proof -
  define kept where "kept = slice_to ppq (filter (\<lambda>x. MIN_SCORE \<le> fst x) (sort_reverse ranked))"
  have s: "select_picks ppq ranked = (if kept = [] then slice_to 1 (sort_reverse ranked) else kept)"
    using assms by (simp add: select_picks_def Let_def kept_def)
  show ?thesis
  proof (cases "kept = []")
    case True
    then show ?thesis using s assms by (simp add: slice_to_one)
  next
    case False
    then show ?thesis using s by simp
  qed
qed

text \<open>
  Claim C4 (fallback guarantee). The scoring loop turns a non-empty list of raw hits into a
  non-empty list of scored candidates. For a non-empty list of scored candidates whose
  scores are all below 0.26, the picks are exactly one candidate: the first, in the original
  order, of the candidates with the maximal score. And whatever the scores and
  \<open>picks_per_query\<close>, a non-empty list yields at least one pick.
\<close>

theorem fallback_guarantee:
  "(score_hits q raw = Inr ranked \<longrightarrow> raw \<noteq> [] \<longrightarrow> ranked \<noteq> [])
   \<and> (ranked \<noteq> [] \<longrightarrow>
        ((\<forall>x \<in> set ranked. fst x < MIN_SCORE) \<longrightarrow>
            select_picks ppq ranked = [hd (filter (\<lambda>y. fst y = Max (fst ` set ranked)) ranked)])
        \<and> select_picks ppq ranked \<noteq> [])"
proof -
  have a: "ranked \<noteq> []" if "score_hits q raw = Inr ranked" and "raw \<noteq> []"
    using that score_hits_length [of q raw ranked] by auto
  have b: "select_picks ppq ranked = [hd (filter (\<lambda>y. fst y = Max (fst ` set ranked)) ranked)]"
    if ne: "ranked \<noteq> []" and "\<forall>x \<in> set ranked. fst x < MIN_SCORE"
    using select_picks_fallback [OF that, of ppq] hd_sort_reverse [OF ne] by simp
  have c: "select_picks ppq ranked \<noteq> []" if "ranked \<noteq> []"
    using that by (rule select_picks_nonempty)
  from a b c show ?thesis by blast
qed

text \<open>Two hits that tie at 1/4 in exact arithmetic: the floats are 0.24999999999999997 for
  the first and 0.25 for the second, and the second is the fallback pick.\<close>

theorem fallback_guarantee_witness:
  "score_hits ''alpha beta gamma''
     [[''title'' \<mapsto> PStr ''Alpha'', ''href'' \<mapsto> PStr ''beta''],
      [''title'' \<mapsto> PStr ''Other'', ''body'' \<mapsto> PStr ''alpha beta gamma'']]
     = Inr [(rd (24999999999999997 / 100000000000000000), PStr ''Alpha'', PStr ''beta''),
            (1 / 4, PStr ''Other'', PStr [])]
   \<and> rd (24999999999999997 / 100000000000000000) = 9007199254740991 / 36028797018963968
   \<and> rd (24999999999999997 / 100000000000000000) < MIN_SCORE \<and> 1 / 4 < MIN_SCORE
   \<and> select_picks 2 [(rd (24999999999999997 / 100000000000000000), PStr ''Alpha'', PStr ''beta''),
                      (1 / 4, PStr ''Other'', PStr [])]
       = [(1 / 4, PStr ''Other'', PStr [])]"
proof -
  have v: "rd (24999999999999997 / 100000000000000000) = 9007199254740991 / 36028797018963968"
    by (simp add: float_eval)
  have m: "MIN_SCORE = 1170935903116329 / 4503599627370496"
    by (simp add: MIN_SCORE_def float_eval)
  have "score_hits ''alpha beta gamma''
     [[''title'' \<mapsto> PStr ''Alpha'', ''href'' \<mapsto> PStr ''beta''],
      [''title'' \<mapsto> PStr ''Other'', ''body'' \<mapsto> PStr ''alpha beta gamma'']]
     = Inr [(9007199254740991 / 36028797018963968, PStr ''Alpha'', PStr ''beta''),
            (1 / 4, PStr ''Other'', PStr [])]"
    apply (simp add: eval_defs)
    apply (simp add: float_eval)
    done
  then have a: "score_hits ''alpha beta gamma''
     [[''title'' \<mapsto> PStr ''Alpha'', ''href'' \<mapsto> PStr ''beta''],
      [''title'' \<mapsto> PStr ''Other'', ''body'' \<mapsto> PStr ''alpha beta gamma'']]
     = Inr [(rd (24999999999999997 / 100000000000000000), PStr ''Alpha'', PStr ''beta''),
            (1 / 4, PStr ''Other'', PStr [])]"
    by (simp only: v)
  have b: "rd (24999999999999997 / 100000000000000000) < MIN_SCORE" by (simp add: v m)
  have c: "1 / 4 < MIN_SCORE" by (simp add: m)
  have mx: "Max (fst ` set [(rd (24999999999999997 / 100000000000000000), PStr ''Alpha'', PStr ''beta''),
                      (1 / 4 :: rat, PStr ''Other'', PStr [])]) = 1 / 4"
    by (simp add: v)
  have sel: "select_picks 2 [(rd (24999999999999997 / 100000000000000000), PStr ''Alpha'', PStr ''beta''),
                      (1 / 4, PStr ''Other'', PStr [])]
       = [(1 / 4, PStr ''Other'', PStr [])]"
    using fallback_guarantee [of "''alpha beta gamma''"
        "[[''title'' \<mapsto> PStr ''Alpha'', ''href'' \<mapsto> PStr ''beta''],
          [''title'' \<mapsto> PStr ''Other'', ''body'' \<mapsto> PStr ''alpha beta gamma'']]"
        "[(rd (24999999999999997 / 100000000000000000), PStr ''Alpha'', PStr ''beta''),
          (1 / 4, PStr ''Other'', PStr [])]" 2] b c mx
    by (simp add: v)
  show ?thesis by (intro conjI) (rule a v b c sel)+
qed

section \<open>Runs in the example worlds\<close>

lemma select_picks_single: "select_picks p [x] = [x]"
  by (simp add: select_picks_def sort_reverse_def slice_to_def Let_def)

lemma example_score:
  "score_hits ''canada'' [[''title'' \<mapsto> PStr ''Canada'']] = Inr [(rd (7 / 10), PStr ''Canada'', PStr [])]"
proof -
  have v: "rd (7 / 10) = 3152519739159347 / 4503599627370496" by (simp add: float_eval)
  have "score_hits ''canada'' [[''title'' \<mapsto> PStr ''Canada'']]
        = Inr [(3152519739159347 / 4503599627370496, PStr ''Canada'', PStr [])]"
    apply (simp add: eval_defs)
    apply (simp add: float_eval)
    done
  then show ?thesis by (simp only: v)
qed

lemma example_world_agents:
  "query_agent (example_world b) h t = Inr \<lparr>qr_queries = [''boom'', ''canada''], thoughts = []\<rparr>"
  "follow_up_decision_agent (example_world b) h f
     = Inr \<lparr>should_follow_up = b, reasoning = [], queries = [''canada'']\<rparr>"
  "synthesis_agent (example_world b) h i = Inr ''report''"
  by (simp_all add: example_world_def)

lemma example_query_boom:
  "research_query (example_world b) ''boom'' s = (Inr (), log_event (EvSearch ''boom'') s)"
  by (simp add: research_query_def ddg_search_def example_world_def select_picks_def
      sort_reverse_def slice_to_def)

lemma example_query_canada:
  "research_query (example_world b) ''canada'' s
     = (Inr (),
        append_result \<lparr>title = PStr ''Canada'', url = PStr [], summary = ''summary''\<rparr>
          (log_event (EvSummarize (PStr ''Canada'') (PStr []) (Inr ''summary''))
             (log_event (EvSearch ''canada'') s)))"
proof -
  have "ddg_search (example_world b) ''canada'' s
        = ([[''title'' \<mapsto> PStr ''Canada'']], log_event (EvSearch ''canada'') s)"
    by (simp add: ddg_search_def example_world_def)
  moreover have "search_agent (example_world b) h i = Inr ''summary''" for h i
    by (simp add: example_world_def)
  ultimately show ?thesis
    by (simp add: research_query_def example_score select_picks_single del: score_hits.simps)
qed

lemmas example_run =
  research_def Let_def example_world_agents example_query_boom example_query_canada
  follow_up_loop.simps follow_up_decision_def synthesize_def log_event_def append_result_def
  init_def events_since_def




section \<open>Properties of the search step\<close>

text \<open>
  Claim C6 (search-failure resilience). If the search provider raises for a query, the
  search step returns the empty hit list; the query yields no candidate and no pick, no
  agent is run for it and no result is appended; the loop body ends normally and the round
  goes on with the remaining queries from a state that differs only by the recorded search.
\<close>

theorem search_failure_resilience:
  assumes "ddg_text w (trace s) q = Inl e"
  shows "ddg_search w q s = ([], log_event (EvSearch q) s)
         \<and> score_hits q [] = Inr [] \<and> select_picks (picks_per_query s) [] = []
         \<and> research_query w q s = (Inr (), log_event (EvSearch q) s)
         \<and> search_results (log_event (EvSearch q) s) = search_results s
         \<and> research_queries w (q # qs) s = research_queries w qs (log_event (EvSearch q) s)"
proof -
  have a: "ddg_search w q s = ([], log_event (EvSearch q) s)"
    using assms by (simp add: ddg_search_def)
  have b: "select_picks n [] = []" for n
    by (simp add: select_picks_def sort_reverse_def)
  have c: "research_query w q s = (Inr (), log_event (EvSearch q) s)"
    by (simp add: research_query_def a b)
  have d: "search_results (log_event (EvSearch q) s) = search_results s"
    by (simp add: log_event_def)
  show ?thesis using a b c d by simp
qed

theorem search_failure_resilience_witness:
  "ddg_text (example_world False) (trace (init ''topic'' 3 2)) ''boom'' = Inl (AdapterError ''timeout'')
   \<and> research_queries (example_world False) [''boom'', ''canada''] (init ''topic'' 3 2)
       = (Inr (),
          \<lparr>query = ''topic'', max_rounds = 3, picks_per_query = 2,
           search_results = [\<lparr>title = PStr ''Canada'', url = PStr [], summary = ''summary''\<rparr>],
           generated_queries = [],
           trace = [EvSearch ''boom'', EvSearch ''canada'',
                    EvSummarize (PStr ''Canada'') (PStr []) (Inr ''summary'')]\<rparr>)"
proof -
  have a: "ddg_text (example_world False) (trace (init ''topic'' 3 2)) ''boom''
           = Inl (AdapterError ''timeout'')"
    by (simp add: example_world_def)
  show ?thesis
    using a search_failure_resilience [OF a, of "[''canada'']"]
    by (simp add: example_query_boom example_query_canada init_def log_event_def
        append_result_def)
qed


section \<open>Properties of the workflow\<close>




text \<open>
  Claim C7 (follow-up short-circuit). If the queries were generated, round 1 ended
  normally in state \<open>s2\<close>, \<open>max_rounds\<close> is above 1 and the follow-up agent, asked after
  round 1, answers that no follow-up is needed, then \<^verbatim>\<open>research\<close> goes on with the synthesis
  at once: after round 1 only the follow-up evaluation and the synthesis are recorded (no
  search, no summarization), the results are those of round 1, and exactly one round was
  opened.
\<close>

theorem follow_up_short_circuit:
  assumes "query_agent w (trace s) (query s) = Inr qr"
    and "research_queries w (qr_queries qr)
           (log_event (EvRound 1)
              ((log_event (EvQueryGen (query s)) s)\<lparr>generated_queries := qr_queries qr\<rparr>))
         = (Inr x, s2)"
    and "1 < max_rounds s"
    and "follow_up_decision_agent w (trace s2) (findings_text s2) = Inr d"
    and "\<not> should_follow_up d"
  shows "research w s = synthesize w (log_event (EvFollowUp (findings_text s2)) s2)
         \<and> events_since s2 (snd (research w s))
             = [EvFollowUp (findings_text s2), EvSynthesize (synthesis_input s2)]
         \<and> search_results (snd (research w s)) = search_results s2
         \<and> count_rounds (events_since s (snd (research w s))) = 1"
proof -
  let ?s1 = "(log_event (EvQueryGen (query s)) s)\<lparr>generated_queries := qr_queries qr\<rparr>"
  let ?s1' = "log_event (EvRound 1) ?s1"
  let ?s3 = "log_event (EvFollowUp (findings_text s2)) s2"
  obtain evq where eq: "reaches ?s1' evq s2" and qq: "list_all is_query_event evq"
    using research_queries_reaches [of ?s1' w "qr_queries qr"] assms(2) by auto
  have r2: "reaches s ([EvQueryGen (query s), EvRound 1] @ evq) s2"
    using reaches_trans [OF reaches_Cons [OF reaches_generated reaches_plain(2) [of ?s1 1]] eq]
    by simp
  have m2: "max_rounds s2 = max_rounds s" using r2 by (rule reaches_max_rounds)
  have fl: "follow_up_loop w 1 s2 = (Inr (), ?s3)"
    using assms(3,4,5) m2 by (simp add: follow_up_loop_stop)
  have rs: "research w s = synthesize w ?s3"
    using assms(1,2) fl by (rule research_synthesize)
  have si: "synthesis_input ?s3 = synthesis_input s2"
    by (simp add: synthesis_input_def log_event_def)
  have sn: "snd (research w s) = log_event (EvSynthesize (synthesis_input s2)) ?s3"
    using rs si by (simp add: synthesize_eq)
  have e2: "events_since s2 (snd (research w s))
             = [EvFollowUp (findings_text s2), EvSynthesize (synthesis_input s2)]"
    using sn by (simp add: events_since_def log_event_def)
  have sr: "search_results (snd (research w s)) = search_results s2"
    using sn by (simp add: log_event_def)
  have "reaches s (([EvQueryGen (query s), EvRound 1] @ evq)
           @ [EvFollowUp (findings_text s2), EvSynthesize (synthesis_input s2)])
          (snd (research w s))"
    using reaches_trans [OF r2 reaches_Cons [OF reaches_follow_up [of s2] reaches_synthesis [of ?s3]]]
      sn si by simp
  then have "events_since s (snd (research w s))
       = ([EvQueryGen (query s), EvRound 1] @ evq)
           @ [EvFollowUp (findings_text s2), EvSynthesize (synthesis_input s2)]"
    by (rule reaches_events_since)
  then have cr: "count_rounds (events_since s (snd (research w s))) = 1"
    using query_events_counts [OF qq] by simp
  show ?thesis using rs e2 sr cr by simp
qed

theorem follow_up_short_circuit_witness:
  "1 < max_rounds (init ''topic'' 3 2)
   \<and> fst (research (example_world False) (init ''topic'' 3 2)) = Inr ''report''
   \<and> count_rounds (events_since (init ''topic'' 3 2)
         (snd (research (example_world False) (init ''topic'' 3 2)))) = 1
   \<and> search_results (snd (research (example_world False) (init ''topic'' 3 2)))
       = [\<lparr>title = PStr ''Canada'', url = PStr [], summary = ''summary''\<rparr>]"
proof -
  let ?S = "init ''topic'' 3 2"
  let ?W = "example_world False"
  let ?QR = "\<lparr>qr_queries = [''boom'', ''canada''], thoughts = []\<rparr>"
  let ?D = "\<lparr>should_follow_up = False, reasoning = [], queries = [''canada'']\<rparr>"
  let ?S2 = "\<lparr>query = ''topic'', max_rounds = 3, picks_per_query = 2,
              search_results = [\<lparr>title = PStr ''Canada'', url = PStr [], summary = ''summary''\<rparr>],
              generated_queries = [''boom'', ''canada''],
              trace = [EvQueryGen ''topic'', EvRound 1, EvSearch ''boom'', EvSearch ''canada'',
                       EvSummarize (PStr ''Canada'') (PStr []) (Inr ''summary'')]\<rparr>"
  have h1: "query_agent ?W (trace ?S) (query ?S) = Inr ?QR" by (simp add: example_world_def)
  have h2: "research_queries ?W (qr_queries ?QR)
           (log_event (EvRound 1)
              ((log_event (EvQueryGen (query ?S)) ?S)\<lparr>generated_queries := qr_queries ?QR\<rparr>))
         = (Inr (), ?S2)"
    by (simp add: example_query_boom example_query_canada init_def log_event_def
        append_result_def)
  have h3: "1 < max_rounds ?S" by (simp add: init_def)
  have h4: "follow_up_decision_agent ?W (trace ?S2) (findings_text ?S2) = Inr ?D"
    by (simp add: example_world_def)
  have h5: "\<not> should_follow_up ?D" by simp
  have r: "fst (research ?W ?S) = Inr ''report''" by (simp add: example_run)
  note t = follow_up_short_circuit [OF h1 h2 h3 h4 h5]
  have c1: "search_results (snd (research ?W ?S)) = search_results ?S2"
    by (rule t [THEN conjunct2, THEN conjunct2, THEN conjunct1])
  have c2: "count_rounds (events_since ?S (snd (research ?W ?S))) = 1"
    by (rule t [THEN conjunct2, THEN conjunct2, THEN conjunct2])
  show ?thesis using h3 r c1 c2 by simp
qed

lemma follow_up_loop_settings: "same_settings s (snd (follow_up_loop w r s))"
proof (induction w r s rule: follow_up_loop.induct)
  case (1 w r s)
  let ?f = "findings_text s"
  let ?s1 = "log_event (EvFollowUp ?f) s"
  let ?s1' = "log_event (EvRound (r + 1)) ?s1"
  have s1: "same_settings s ?s1" by simp
  show ?case
  proof (cases "r < max_rounds s")
    case False
    then show ?thesis by (simp add: follow_up_loop_exit)
  next
    case lt: True
    show ?thesis
    proof (cases "follow_up_decision_agent w (trace s) ?f")
      case (Inl e)
      then show ?thesis using lt by (simp add: follow_up_loop_raise)
    next
      case d: (Inr d)
      show ?thesis
      proof (cases "should_follow_up d")
        case False
        then show ?thesis using lt d by (simp add: follow_up_loop_stop)
      next
        case go: True
        obtain x s2 where rq: "research_queries w (queries d) ?s1' = (x, s2)"
          by (cases "research_queries w (queries d) ?s1'")
        have fd: "(Inr d, ?s1) = follow_up_decision w s" using d by (simp add: follow_up_decision_eq)
        have rq': "(x, s2) = research_queries w (queries d) ?s1'" using rq by simp
        have s2: "same_settings s s2" using fd rq' by (rule follow_up_round_settings)
        show ?thesis
        proof (cases x)
          case (Inl e)
          then show ?thesis using lt d go rq s2 by (simp add: follow_up_loop_round_raise)
        next
          case (Inr u)
          have nn: "\<not> \<not> should_follow_up d" using go by simp
          have "same_settings s2 (snd (follow_up_loop w (r + 1) s2))"
            by (rule "1.IH" [OF lt fd refl nn rq' Inr])
          moreover have "follow_up_loop w r s = follow_up_loop w (r + 1) s2"
            using lt d go rq Inr by (simp add: follow_up_loop_continue)
          ultimately show ?thesis using s2 by (simp add: same_settings_trans)
        qed
      qed
    qed
  qed
qed

lemma synthesize_settings: "same_settings s (snd (synthesize w s))"
  by (simp add: synthesize_eq)

lemma research_generated_queries:
  "generated_queries (snd (research w s))
     = (case query_agent w (trace s) (query s) of
          Inl e \<Rightarrow> generated_queries s
        | Inr qr \<Rightarrow> qr_queries qr)"
proof (cases "query_agent w (trace s) (query s)")
  case (Inl e)
  then show ?thesis by (simp add: research_query_agent_raise log_event_def)
next
  case qr: (Inr qr)
  let ?s1 = "(log_event (EvQueryGen (query s)) s)\<lparr>generated_queries := qr_queries qr\<rparr>"
  let ?s1' = "log_event (EvRound 1) ?s1"
  obtain x s2 where rq: "research_queries w (qr_queries qr) ?s1' = (x, s2)"
    by (cases "research_queries w (qr_queries qr) ?s1'")
  have "same_settings ?s1' s2" using research_queries_settings [of ?s1' w "qr_queries qr"] rq by simp
  then have g2: "generated_queries s2 = qr_queries qr"
    by (simp add: same_settings_def log_event_def)
  show ?thesis
  proof (cases x)
    case (Inl e)
    then show ?thesis using qr rq g2 by (simp add: research_round_one_raise)
  next
    case x: (Inr u)
    obtain y s3 where fl: "follow_up_loop w 1 s2 = (y, s3)" by (cases "follow_up_loop w 1 s2")
    have "same_settings s2 s3" using follow_up_loop_settings [of s2 w 1] fl by simp
    then have g3: "generated_queries s3 = qr_queries qr" using g2 by (simp add: same_settings_def)
    show ?thesis
    proof (cases y)
      case (Inl e)
      then show ?thesis using qr rq x fl g3 by (simp add: research_loop_raise)
    next
      case (Inr v)
      have "research w s = synthesize w s3" using qr rq x fl Inr by (simp add: research_synthesize)
      then show ?thesis using qr g3 by (simp add: synthesize_eq log_event_def)
    qed
  qed
qed

text \<open>
  Claim C9 (frame of \<open>generated_queries\<close>). After a call of \<^verbatim>\<open>research\<close> the field
  \<open>generated_queries\<close> holds the queries that the initial query generation returned (and
  its old value if that call raised), whatever happened afterwards; a round, a follow-up
  evaluation, the follow-up loop and the synthesis each leave it (and topic and limits)
  unchanged; the accumulated results only grow at the end.
\<close>

theorem generated_queries_frame:
  "generated_queries (snd (research w s))
     = (case query_agent w (trace s) (query s) of
          Inl e \<Rightarrow> generated_queries s
        | Inr qr \<Rightarrow> qr_queries qr)
   \<and> same_settings s (snd (research_queries w qs s))
   \<and> same_settings s (snd (follow_up_decision w s))
   \<and> same_settings s (snd (follow_up_loop w r s))
   \<and> same_settings s (snd (synthesize w s))
   \<and> prefix (search_results s) (search_results (snd (research w s)))
   \<and> query (snd (research w s)) = query s
   \<and> max_rounds (snd (research w s)) = max_rounds s
   \<and> picks_per_query (snd (research w s)) = picks_per_query s"
proof -
  obtain evs where r: "reaches s evs (snd (research w s))"
    using research_reaches [of s w] by blast
  then have "prefix (search_results s) (search_results (snd (research w s)))
     \<and> query (snd (research w s)) = query s
     \<and> max_rounds (snd (research w s)) = max_rounds s
     \<and> picks_per_query (snd (research w s)) = picks_per_query s"
    by (simp add: reaches_def)
  then show ?thesis
    using research_generated_queries [of w s] research_queries_settings [of s w qs]
      follow_up_decision_settings [of s w] follow_up_loop_settings [of s w r]
      synthesize_settings [of s w]
    by simp
qed









end
